theory Spec2Isabelle
  imports Complex_Main
begin

section \<open>Python values\<close>

text \<open>
  A Python \<open>str\<close> is a sequence of Unicode code points, and \<open>len\<close>, slicing and the
  regular expressions of \<open>re\<close> count code points. A string is therefore a list of
  code points (natural numbers); \<open>ascii\<close> reads an ASCII literal.
\<close>

type_synonym pystr = "nat list"

definition ascii :: "string \<Rightarrow> pystr" where
  "ascii s = map of_char s"

text \<open>
  \<open>str.isspace\<close> on one character, which is also what \<open>\s\<close> matches in a \<open>str\<close>
  pattern and what \<open>str.strip()\<close> removes: U+0009..U+000D, U+001C..U+0020, U+0085,
  U+00A0, U+1680, U+2000..U+200A, U+2028, U+2029, U+202F, U+205F, U+3000.
\<close>

definition isspace :: "nat \<Rightarrow> bool" where
  "isspace c = ((9 \<le> c \<and> c \<le> 13) \<or> (28 \<le> c \<and> c \<le> 32) \<or> c = 133 \<or> c = 160 \<or> c = 5760
     \<or> (8192 \<le> c \<and> c \<le> 8202) \<or> c = 8232 \<or> c = 8233 \<or> c = 8239 \<or> c = 8287 \<or> c = 12288)"

section \<open>Filename resolver\<close>

subsection \<open>\<open>sanitize_filename\<close>\<close>

text \<open>\<open>name.strip()\<close>: whitespace removed at both ends.\<close>

definition strip :: "pystr \<Rightarrow> pystr" where
  "strip s = rev (dropWhile isspace (rev (dropWhile isspace s)))"

text \<open>
  The character class \<open>[\\/:*?"<>|]\<close> of the first substitution:
  backslash, slash, colon, star, question mark, double quote, less, greater, bar.
\<close>

definition illegal :: "nat set" where
  "illegal = {92, 47, 58, 42, 63, 34, 60, 62, 124}"

text \<open>\<open>re.sub(r"[\\/:*?\"<>|]", "_", name)\<close>: each such character becomes an underscore.\<close>

definition replace_illegal :: "pystr \<Rightarrow> pystr" where
  "replace_illegal s = map (\<lambda>c. if c \<in> illegal then 95 else c) s"

text \<open>
  \<open>re.sub(r"\s+", " ", name)\<close>: scanning from the left, each maximal run of whitespace
  becomes one space.
\<close>

function collapse_ws :: "pystr \<Rightarrow> pystr" where
  "collapse_ws [] = []"
| "collapse_ws (c # cs) =
     (if isspace c then 32 # collapse_ws (dropWhile isspace cs) else c # collapse_ws cs)"
  by pat_completeness auto
termination
  by (relation "measure length") (auto simp: length_dropWhile_le less_Suc_eq_le)

definition sanitize_filename :: "pystr \<Rightarrow> pystr" where
  "sanitize_filename name = take 180 (collapse_ws (replace_illegal (strip name)))"

subsection \<open>\<open>unique_path\<close>\<close>

text \<open>\<open>str(n)\<close> of a non-negative integer: its decimal digits.\<close>

function str_nat :: "nat \<Rightarrow> pystr" where
  "str_nat n = (if n < 10 then [48 + n] else str_nat (n div 10) @ [48 + n mod 10])"
  by pat_completeness auto
termination
  by (relation "measure id") auto

declare str_nat.simps [simp del]

text \<open>
  \<open>dest_dir / name\<close>. The file names built here never start with a separator (the base
  name is sanitized), so the joined path is the directory, a separator and the name.
\<close>

definition path_join :: "pystr \<Rightarrow> pystr \<Rightarrow> pystr" where
  "path_join dir name = dir @ ascii ''/'' @ name"

definition plain_name :: "pystr \<Rightarrow> pystr \<Rightarrow> pystr" where
  "plain_name base_name ext = base_name @ ascii ''.'' @ ext"

definition numbered_name :: "pystr \<Rightarrow> pystr \<Rightarrow> nat \<Rightarrow> pystr" where
  "numbered_name base_name ext idx =
     base_name @ ascii '' ('' @ str_nat idx @ ascii '').'' @ ext"

text \<open>
  The \<open>while candidate.exists()\<close> loop, with its two variables \<open>candidate\<close> and \<open>idx\<close>.
  The state of the file system is the list \<open>files\<close> of the paths that exist.
\<close>

function unique_loop ::
  "pystr list \<Rightarrow> pystr \<Rightarrow> pystr \<Rightarrow> pystr \<Rightarrow> pystr \<Rightarrow> nat \<Rightarrow> pystr" where
  "unique_loop files dest_dir base_name ext candidate idx =
     (if candidate \<in> set files
      then unique_loop files dest_dir base_name ext
             (path_join dest_dir (numbered_name base_name ext idx)) (idx + 1)
      else candidate)"
  by pat_completeness auto

text \<open>
  The loop ends because the numbered candidates are pairwise different and only finitely
  many paths exist: \<open>pending\<close> are the indices from \<open>idx\<close> on whose candidate exists.
\<close>

definition digits_val :: "pystr \<Rightarrow> nat" where
  "digits_val ds = foldl (\<lambda>a d. 10 * a + (d - 48)) 0 ds"

lemma digits_val_str_nat: "digits_val (str_nat n) = n"
proof (induction n rule: str_nat.induct)
  case (1 n)
  show ?case
  proof (cases "n < 10")
    case True
    then show ?thesis by (simp add: str_nat.simps[of n] digits_val_def)
  next
    case False
    with 1 show ?thesis by (simp add: str_nat.simps[of n] digits_val_def)
  qed
qed

lemma inj_str_nat: "inj str_nat"
  by (rule inj_on_inverseI[where g = digits_val]) (rule digits_val_str_nat)

lemma inj_numbered: "inj (\<lambda>k. path_join dest_dir (numbered_name base_name ext k))"
  using inj_str_nat by (auto simp: inj_def path_join_def numbered_name_def)

definition pending :: "pystr list \<Rightarrow> pystr \<Rightarrow> pystr \<Rightarrow> pystr \<Rightarrow> nat \<Rightarrow> nat set" where
  "pending files dest_dir base_name ext idx =
     {k. idx \<le> k \<and> path_join dest_dir (numbered_name base_name ext k) \<in> set files}"

lemma finite_pending: "finite (pending files dest_dir base_name ext idx)"
proof -
  have "pending files dest_dir base_name ext idx
        \<subseteq> (\<lambda>k. path_join dest_dir (numbered_name base_name ext k)) -` set files"
    by (auto simp: pending_def)
  moreover have "finite ((\<lambda>k. path_join dest_dir (numbered_name base_name ext k)) -` set files)"
    by (rule finite_vimageI) (simp_all add: inj_numbered)
  ultimately show ?thesis by (rule finite_subset)
qed

lemma pending_step:
  "card (pending files dest_dir base_name ext (Suc idx))
     \<le> card (pending files dest_dir base_name ext idx)"
proof (rule card_mono)
  show "finite (pending files dest_dir base_name ext idx)" by (rule finite_pending)
  show "pending files dest_dir base_name ext (Suc idx) \<subseteq> pending files dest_dir base_name ext idx"
    by (auto simp: pending_def)
qed

lemma pending_step_strict:
  assumes "path_join dest_dir (numbered_name base_name ext idx) \<in> set files"
  shows "card (pending files dest_dir base_name ext (Suc idx))
           < card (pending files dest_dir base_name ext idx)"
proof (rule psubset_card_mono)
  show "finite (pending files dest_dir base_name ext idx)" by (rule finite_pending)
  have "idx \<in> pending files dest_dir base_name ext idx"
    using assms by (simp add: pending_def)
  moreover have "idx \<notin> pending files dest_dir base_name ext (Suc idx)"
    by (simp add: pending_def)
  moreover have "pending files dest_dir base_name ext (Suc idx) \<subseteq> pending files dest_dir base_name ext idx"
    by (auto simp: pending_def)
  ultimately show "pending files dest_dir base_name ext (Suc idx) \<subset> pending files dest_dir base_name ext idx"
    by blast
qed

termination unique_loop
proof (relation "measure (\<lambda>(files, dest_dir, base_name, ext, candidate, idx).
          card (pending files dest_dir base_name ext idx) + (if candidate \<in> set files then 1 else 0))")
  show "wf (measure (\<lambda>(files, dest_dir, base_name, ext, candidate, idx).
          card (pending files dest_dir base_name ext idx) + (if candidate \<in> set files then 1 else 0)))"
    by simp
next
  fix files :: "pystr list" and dest_dir base_name ext candidate :: pystr and idx :: nat
  assume "candidate \<in> set files"
  then show "((files, dest_dir, base_name, ext, path_join dest_dir (numbered_name base_name ext idx), idx + 1),
              (files, dest_dir, base_name, ext, candidate, idx))
             \<in> measure (\<lambda>(files, dest_dir, base_name, ext, candidate, idx).
                  card (pending files dest_dir base_name ext idx) + (if candidate \<in> set files then 1 else 0))"
    using pending_step[of files dest_dir base_name ext idx]
      pending_step_strict[of dest_dir base_name ext idx files]
    by auto
qed

declare unique_loop.simps [simp del]

definition unique_path :: "pystr list \<Rightarrow> pystr \<Rightarrow> pystr \<Rightarrow> pystr \<Rightarrow> pystr" where
  "unique_path files dest_dir base_name ext =
     unique_loop files dest_dir base_name ext (path_join dest_dir (plain_name base_name ext)) 1"

text \<open>
  The candidates in the order the loop tries them: \<open>base.ext\<close> first, then
  \<open>base (1).ext\<close>, \<open>base (2).ext\<close>, and so on. \<open>candidate_path d b e k\<close> is the
  \<open>(k+1)\<close>-th candidate.
\<close>

definition candidate_path :: "pystr \<Rightarrow> pystr \<Rightarrow> pystr \<Rightarrow> nat \<Rightarrow> pystr" where
  "candidate_path dest_dir base_name ext k =
     (if k = 0 then path_join dest_dir (plain_name base_name ext)
      else path_join dest_dir (numbered_name base_name ext k))"

section \<open>Exceptions and signals\<close>

text \<open>
  The exceptions a run can meet: a plain \<open>Exception\<close> with its message (raised by the
  worker itself or by the resolution client), and the two arithmetic errors of
  \<open>int / int\<close>. \<open>str_exn\<close> is \<open>str(e)\<close>.
\<close>

datatype exn = Exception pystr | ZeroDivisionError | OverflowError

fun str_exn :: "exn \<Rightarrow> pystr" where
  "str_exn (Exception msg) = msg"
| "str_exn ZeroDivisionError = ascii ''division by zero''"
| "str_exn OverflowError = ascii ''integer division result too large for a float''"

text \<open>The six signals of \<open>DownloadWorker\<close>; a run's observable behaviour is the list it emits.\<close>

datatype event =
    Progress int
  | Status pystr
  | FinishedOk
  | FinishedWithCancel
  | Error pystr
  | ItemDone pystr pystr

section \<open>Double-precision arithmetic of the progress computation\<close>

text \<open>
  \<open>done / total\<close> is Python's true division of two integers: the quotient correctly
  rounded to an IEEE 754 double (round to nearest, ties to even), \<open>ZeroDivisionError\<close>
  for a zero divisor and \<open>OverflowError\<close> when the result exceeds the double range.
  A finite double is \<open>Finite m e\<close>, the number \<open>m * 2 ^ e\<close>.
\<close>

datatype pyfloat = Finite int int | PosInf | NegInf

text \<open>\<open>int.bit_length\<close> of a non-negative integer.\<close>

function bit_length :: "int \<Rightarrow> int" where
  "bit_length n = (if n \<le> 0 then 0 else 1 + bit_length (n div 2))"
  by pat_completeness auto
termination
  by (relation "measure nat") auto

declare bit_length.simps [simp del]

text \<open>\<open>floor_log2 n b\<close> is the binary exponent of \<open>n / b\<close> for positive \<open>n\<close> and \<open>b\<close>.\<close>

definition floor_log2 :: "int \<Rightarrow> int \<Rightarrow> int" where
  "floor_log2 n b =
     (let d = bit_length n - bit_length b
      in if b * 2 ^ nat d \<le> n * 2 ^ nat (- d) then d else d - 1)"

text \<open>The integer nearest to \<open>num / den\<close> (\<open>den\<close> positive), a tie going to the even one.\<close>

definition round_half_even :: "int \<Rightarrow> int \<Rightarrow> int" where
  "round_half_even num den =
     (let q = num div den; r = num mod den
      in if 2 * r < den then q else if den < 2 * r then q + 1 else if even q then q else q + 1)"

text \<open>
  The double nearest to \<open>n / b\<close> (both positive), as mantissa and exponent: 53
  significant bits, fewer below the smallest normal exponent \<open>-1022\<close>.
\<close>

definition round_ratio :: "int \<Rightarrow> int \<Rightarrow> int \<times> int" where
  "round_ratio n b =
     (let e = max (floor_log2 n b) (- 1022); sh = e - 52
      in (round_half_even (n * 2 ^ nat (- sh)) (b * 2 ^ nat sh), sh))"

text \<open>The rounded magnitude is \<open>2 ^ 1024\<close> or more: beyond the largest double.\<close>

definition too_large :: "int \<times> int \<Rightarrow> bool" where
  "too_large p = (case p of (m, sh) \<Rightarrow> 2 ^ 1024 * 2 ^ nat (- sh) \<le> m * 2 ^ nat sh)"

definition py_truediv :: "int \<Rightarrow> int \<Rightarrow> exn + pyfloat" where
  "py_truediv a b =
     (if b = 0 then Inl ZeroDivisionError
      else if a = 0 then Inr (Finite 0 0)
      else let p = round_ratio \<bar>a\<bar> \<bar>b\<bar>
           in if too_large p then Inl OverflowError
              else Inr (Finite (sgn a * sgn b * fst p) (snd p)))"

text \<open>
  \<open>x * 100\<close> for a float \<open>x\<close>: the integer \<open>100\<close> converts to the double \<open>100.0\<close>
  exactly, the product is correctly rounded, and an overflow gives an infinity.
\<close>

fun times_hundred :: "pyfloat \<Rightarrow> pyfloat" where
  "times_hundred (Finite m e) =
     (if m = 0 then Finite 0 0
      else let p = round_ratio (\<bar>m\<bar> * 100 * 2 ^ nat e) (2 ^ nat (- e))
           in if too_large p then (if 0 < m then PosInf else NegInf)
              else Finite (sgn m * fst p) (snd p))"
| "times_hundred PosInf = PosInf"
| "times_hundred NegInf = NegInf"

text \<open>
  The operands of \<open>min\<close>, \<open>max\<close> and \<open>int\<close> are integers or floats; Python compares
  an integer with a float exactly.
\<close>

datatype num = IntV int | FloatV pyfloat

fun float_less_int :: "pyfloat \<Rightarrow> int \<Rightarrow> bool" where
  "float_less_int (Finite m e) k = (m * 2 ^ nat e < k * 2 ^ nat (- e))"
| "float_less_int PosInf k = False"
| "float_less_int NegInf k = True"

fun int_less_float :: "int \<Rightarrow> pyfloat \<Rightarrow> bool" where
  "int_less_float k (Finite m e) = (k * 2 ^ nat (- e) < m * 2 ^ nat e)"
| "int_less_float k PosInf = True"
| "int_less_float k NegInf = False"

text \<open>\<open>min(k, x)\<close> for an integer \<open>k\<close> and a float \<open>x\<close>: \<open>x\<close> only if \<open>x < k\<close>.\<close>

definition py_min :: "int \<Rightarrow> pyfloat \<Rightarrow> num" where
  "py_min k x = (if float_less_int x k then FloatV x else IntV k)"

text \<open>\<open>max(k, y)\<close> for an integer \<open>k\<close>: \<open>y\<close> only if \<open>y > k\<close>.\<close>

fun py_max :: "int \<Rightarrow> num \<Rightarrow> num" where
  "py_max k (IntV j) = (if k < j then IntV j else IntV k)"
| "py_max k (FloatV x) = (if int_less_float k x then FloatV x else IntV k)"

text \<open>\<open>int(y)\<close>: a float is truncated towards zero, an infinity raises.\<close>

fun py_int :: "num \<Rightarrow> exn + int" where
  "py_int (IntV j) = Inr j"
| "py_int (FloatV (Finite m e)) =
     Inr (if 0 \<le> m then (m * 2 ^ nat e) div 2 ^ nat (- e)
          else - ((- m * 2 ^ nat e) div 2 ^ nat (- e)))"
| "py_int (FloatV PosInf) = Inl OverflowError"
| "py_int (FloatV NegInf) = Inl OverflowError"

text \<open>
  \<open>done = total - bytes_remaining\<close> and
  \<open>pct = int(max(0, min(100, (done / total) * 100)))\<close>.
\<close>

definition percent :: "int \<Rightarrow> int \<Rightarrow> exn + int" where
  "percent total_size bytes_remaining =
     (case py_truediv (total_size - bytes_remaining) total_size of
        Inl e \<Rightarrow> Inl e
      | Inr q \<Rightarrow> py_int (py_max 0 (py_min 100 (times_hundred q))))"

text \<open>
  What the specification gives for the same value: \<open>floor(100 * done / total)\<close> clamped
  to \<open>[0, 100]\<close>, in exact arithmetic.
\<close>

definition spec_percent :: "int \<Rightarrow> int \<Rightarrow> int" where
  "spec_percent total_size bytes_remaining =
     max 0 (min 100 ((100 * (total_size - bytes_remaining)) div total_size))"

section \<open>Stream selector\<close>

text \<open>
  A stream variant as the resolution client offers it. The client library is not part
  of the repository; the record has the attributes the worker reads and the ones its
  queries filter and order by, with the quality metrics (\<open>resolution\<close>, \<open>abr\<close>) as the
  numbers the library orders by, absent where a variant has none.
\<close>

record stream =
  progressive :: bool
  audio_only :: bool
  video_only :: bool
  subtype :: "pystr option"
  mime_type :: pystr
  filesize :: "int option"
  filesize_approx :: "int option"
  resolution :: "nat option"
  abr :: "nat option"

text \<open>
  The query methods that \<open>_select_stream\<close> chains belong to the client library
  (\<open>pytubefix\<close>), whose code is outside the repository; they are modelled as the
  library documents them: \<open>order_by\<close> keeps the variants that have the attribute and
  sorts them ascending (a stable sort), \<open>desc\<close> reverses, \<open>first\<close> is the first
  element or \<open>None\<close>.
\<close>

definition order_by :: "(stream \<Rightarrow> nat option) \<Rightarrow> stream list \<Rightarrow> stream list" where
  "order_by attr ss = sort_key (\<lambda>s. the (attr s)) (filter (\<lambda>s. attr s \<noteq> None) ss)"

definition desc :: "stream list \<Rightarrow> stream list" where
  "desc ss = rev ss"

definition first :: "stream list \<Rightarrow> stream option" where
  "first ss = (case ss of [] \<Rightarrow> None | x # _ \<Rightarrow> Some x)"

definition is_mp4 :: "stream \<Rightarrow> bool" where
  "is_mp4 s = (subtype s = Some (ascii ''mp4''))"

text \<open>
  \<open>_select_stream\<close>. \<open>yt.streams\<close> is the list of variants, or raises; the
  \<open>except Exception\<close> turns that into \<open>None\<close>. A mode other than the three named
  ones falls through to the final \<open>return None\<close>.
\<close>

definition select_stream :: "pystr \<Rightarrow> exn + stream list \<Rightarrow> stream option" where
  "select_stream mode yt_streams =
     (case yt_streams of
        Inl e \<Rightarrow> None
      | Inr ss \<Rightarrow>
          if mode = ascii ''full'' then
            (case first (desc (order_by resolution (filter (\<lambda>s. progressive s \<and> is_mp4 s) ss))) of
               None \<Rightarrow> first (desc (order_by resolution (filter progressive ss)))
             | Some s \<Rightarrow> Some s)
          else if mode = ascii ''audio'' then
            first (desc (order_by abr (filter audio_only ss)))
          else if mode = ascii ''video_only'' then
            first (desc (order_by resolution (filter video_only ss)))
          else None)"

section \<open>Cooperative control signal\<close>

text \<open>
  The worker with its attributes. Two more components make the run's effects explicit:
  \<open>events\<close>, the signals emitted so far, and \<open>files\<close>, the paths that exist.
\<close>

record worker =
  url :: pystr
  dest_dir :: pystr
  mode :: pystr
  pause_event :: bool
  cancel_event :: bool
  current_total :: "int option"
  events :: "event list"
  files :: "pystr list"

text \<open>\<open>__init__\<close>: both flags clear, no total known.\<close>

definition init :: "pystr \<Rightarrow> pystr \<Rightarrow> pystr \<Rightarrow> pystr list \<Rightarrow> worker" where
  "init u d m fs =
     \<lparr>url = u, dest_dir = d, mode = m, pause_event = False, cancel_event = False,
      current_total = None, events = [], files = fs\<rparr>"

definition cancel :: "worker \<Rightarrow> worker" where
  "cancel w = w\<lparr>cancel_event := True\<rparr>"

definition toggle_pause :: "worker \<Rightarrow> worker" where
  "toggle_pause w =
     (if pause_event w then w\<lparr>pause_event := False\<rparr> else w\<lparr>pause_event := True\<rparr>)"

text \<open>
  The control thread calls \<open>cancel\<close> and \<open>toggle_pause\<close> while the worker runs. The
  worker reads the flags at its checkpoints only, so a run is described by the calls
  that have arrived before each checkpoint.
\<close>

datatype ctl = Cancel | TogglePause

fun apply_ctl :: "ctl \<Rightarrow> worker \<Rightarrow> worker" where
  "apply_ctl Cancel w = cancel w"
| "apply_ctl TogglePause w = toggle_pause w"

definition apply_ctls :: "ctl list \<Rightarrow> worker \<Rightarrow> worker" where
  "apply_ctls cs w = fold apply_ctl cs w"

definition emit :: "event \<Rightarrow> worker \<Rightarrow> worker" where
  "emit e w = w\<lparr>events := events w @ [e]\<rparr>"

section \<open>Transfer progress tracker\<close>

text \<open>
  How a call of a worker method ends: it returns, it raises, or it never returns
  (the pause loop spins for ever when nobody resumes or cancels).
\<close>

datatype outcome = Done | Raised exn | Hang

text \<open>
  One chunk callback of the transfer: the control calls that arrived before it
  (\<open>before\<close>), the control calls arriving during each successive \<open>time.sleep(0.1)\<close> of
  the pause loop (\<open>sleeps\<close>), and the callback's \<open>bytes_remaining\<close>.
\<close>

record chunk =
  before :: "ctl list"
  sleeps :: "ctl list list"
  bytes_remaining :: int

definition msg_cancel_paused :: pystr where
  "msg_cancel_paused = ascii ''Cancelado durante pausa.''"

definition msg_cancel_user :: pystr where
  "msg_cancel_user = ascii ''Cancelado pelo usu'' @ [225] @ ascii ''rio.''"

text \<open>
  The loop \<open>while self.pause_event.is_set()\<close>. When the schedule of sleeps is used up
  no control call will ever arrive: a worker still paused and not cancelled spins
  for ever.
\<close>

fun pause_wait :: "worker \<Rightarrow> ctl list list \<Rightarrow> outcome \<times> worker" where
  "pause_wait w [] =
     (if pause_event w
      then (if cancel_event w then (Raised (Exception msg_cancel_paused), w) else (Hang, w))
      else (Done, w))"
| "pause_wait w (t # ts) =
     (if pause_event w
      then (if cancel_event w then (Raised (Exception msg_cancel_paused), w)
            else pause_wait (apply_ctls t w) ts)
      else (Done, w))"

text \<open>Truth value of an optional integer, and \<open>a or b\<close> on such values.\<close>

definition truthy :: "int option \<Rightarrow> bool" where
  "truthy v = (case v of None \<Rightarrow> False | Some n \<Rightarrow> n \<noteq> 0)"

definition py_or :: "int option \<Rightarrow> int option \<Rightarrow> int option" where
  "py_or a b = (if truthy a then a else b)"

text \<open>
  \<open>total = self._current_total or getattr(stream, "filesize", None)
  or getattr(stream, "filesize_approx", None)\<close>
\<close>

definition effective_total :: "worker \<Rightarrow> stream \<Rightarrow> int option" where
  "effective_total w s = py_or (py_or (current_total w) (filesize s)) (filesize_approx s)"

text \<open>
  \<open>_on_progress\<close>. \<open>if not total: return\<close> leaves when the total is \<open>None\<close> or
  zero.
\<close>

definition on_progress :: "worker \<Rightarrow> stream \<Rightarrow> chunk \<Rightarrow> outcome \<times> worker" where
  "on_progress w s c =
     (case pause_wait (apply_ctls (before c) w) (sleeps c) of
        (Done, w1) \<Rightarrow>
          if cancel_event w1 then (Raised (Exception msg_cancel_user), w1)
          else (case effective_total w1 s of
                  None \<Rightarrow> (Done, w1)
                | Some total_size \<Rightarrow>
                    if total_size = 0 then (Done, w1)
                    else (case percent total_size (bytes_remaining c) of
                            Inl e \<Rightarrow> (Raised e, w1)
                          | Inr pct \<Rightarrow> (Done, emit (Progress pct) w1)))
      | r \<Rightarrow> r)"

section \<open>Download orchestrator\<close>

text \<open>
  The resolution client, seen from the worker. \<open>YouTube(link)\<close> gives a video with
  its title and its variants, or raises; the transfer \<open>stream.download\<close> creates the
  output file, calls the progress callback once per chunk and returns, or raises its
  \<open>fault\<close> after the last chunk it delivered.
\<close>

record video =
  title :: pystr
  streams :: "exn + stream list"

text \<open>
  What happens around the \<open>n\<close>-th download of a run: the control calls that arrive
  before it starts, its chunks, and its fault if it has one.
\<close>

record episode =
  pre :: "ctl list"
  chunks :: "chunk list"
  fault :: "exn option"

text \<open>
  Everything outside the worker: whether \<open>mkdir\<close> raises, what \<open>Playlist(url).video_urls\<close>
  gives, what \<open>YouTube(link)\<close> gives, the episodes, and the control calls that arrive
  after the last download and before the final test of the cancel flag.
\<close>

record world =
  mkdir :: "exn option"
  playlist :: "pystr \<Rightarrow> exn + pystr list"
  youtube :: "pystr \<Rightarrow> exn + video"
  episode :: "nat \<Rightarrow> episode"
  final :: "ctl list"

text \<open>The transfer loop of the client: one callback per chunk, then the fault or success.\<close>

fun transfer :: "worker \<Rightarrow> stream \<Rightarrow> chunk list \<Rightarrow> exn option \<Rightarrow> outcome \<times> worker" where
  "transfer w s [] flt = (case flt of None \<Rightarrow> (Done, w) | Some e \<Rightarrow> (Raised e, w))"
| "transfer w s (c # cs) flt =
     (case on_progress w s c of
        (Done, w1) \<Rightarrow> transfer w1 s cs flt
      | r \<Rightarrow> r)"

definition msg_no_stream :: pystr where
  "msg_no_stream =
     ascii ''N'' @ [227] @ ascii ''o foi poss'' @ [237] @ ascii ''vel encontrar um stream compat''
       @ [237] @ ascii ''vel para esse modo.''"

text \<open>\<open>x or y\<close> on strings: the empty string is false.\<close>

definition str_or :: "pystr \<Rightarrow> pystr \<Rightarrow> pystr" where
  "str_or a b = (if a \<noteq> [] then a else b)"

text \<open>
  The extension: \<open>stream.subtype\<close>, or when that is missing or empty the part of the
  MIME type after its last slash, or \<open>mp4\<close> when the MIME type has no slash.
\<close>

definition extension :: "stream \<Rightarrow> pystr" where
  "extension s =
     (let from_mime =
            (if 47 \<in> set (mime_type s)
             then rev (takeWhile (\<lambda>c. c \<noteq> 47) (rev (mime_type s)))
             else ascii ''mp4'')
      in case subtype s of
           None \<Rightarrow> from_mime
         | Some e \<Rightarrow> if e \<noteq> [] then e else from_mime)"

text \<open>\<open>_download_one\<close>, as the \<open>n\<close>-th download of the run.\<close>

definition download_one :: "world \<Rightarrow> worker \<Rightarrow> nat \<Rightarrow> pystr \<Rightarrow> outcome \<times> worker" where
  "download_one W w n link =
     (case youtube W link of
        Inl e \<Rightarrow> (Raised e, w)
      | Inr yt \<Rightarrow>
          let name = sanitize_filename (str_or (title yt) (ascii ''video'')) in
          (case select_stream (mode w) (streams yt) of
             None \<Rightarrow> (Raised (Exception msg_no_stream), w)
           | Some s \<Rightarrow>
               let ext = extension s;
                   w1 = w\<lparr>current_total := py_or (filesize s) (filesize_approx s)\<rparr>;
                   out_path = unique_path (files w1) (dest_dir w1) name ext;
                   w2 = emit (Status (ascii ''Iniciando: '' @ title yt)) w1;
                   w3 = w2\<lparr>files := out_path # files w2\<rparr>
               in (case transfer w3 s (chunks (episode W n)) (fault (episode W n)) of
                     (Done, w4) \<Rightarrow>
                       (Done, emit (ItemDone (str_or (title yt) name) out_path)
                                (emit (Progress 100) w4))
                   | r \<Rightarrow> r)))"

text \<open>
  \<open>_iter_playlist\<close>: the \<open>for\<close> loop over \<open>p.video_urls\<close>, with \<open>count\<close> the number
  of items already taken and \<open>total_items\<close> the length of the whole list.
\<close>

fun iter_playlist :: "world \<Rightarrow> worker \<Rightarrow> nat \<Rightarrow> nat \<Rightarrow> pystr list \<Rightarrow> outcome \<times> worker" where
  "iter_playlist W w total_items count [] = (Done, w)"
| "iter_playlist W w total_items count (u # us) =
     (let w1 = apply_ctls (pre (episode W (count + 1))) w in
      if cancel_event w1 then (Done, w1)
      else (case download_one W
                   (emit (Status (ascii ''Baixando item '' @ str_nat (count + 1) @ ascii ''/''
                                    @ str_nat total_items)) w1)
                   (count + 1) u of
              (Done, w2) \<Rightarrow> iter_playlist W w2 total_items (count + 1) us
            | r \<Rightarrow> r))"

text \<open>
  The body of the \<open>try\<close> in \<open>run\<close> up to the downloads: \<open>mkdir\<close>, the attempt to read
  the URL as a playlist (\<open>playlist_urls\<close> is the list when \<open>is_playlist\<close> ends up true:
  nothing was raised and the list is not empty), and one of the two paths.
\<close>

definition playlist_urls :: "world \<Rightarrow> pystr \<Rightarrow> pystr list option" where
  "playlist_urls W u =
     (case playlist W u of
        Inl e \<Rightarrow> None
      | Inr us \<Rightarrow> if 0 < length us then Some us else None)"

definition downloads :: "world \<Rightarrow> worker \<Rightarrow> outcome \<times> worker" where
  "downloads W w =
     (case mkdir W of
        Some e \<Rightarrow> (Raised e, w)
      | None \<Rightarrow>
          (case playlist_urls W (url w) of
             Some us \<Rightarrow>
               iter_playlist W
                 (emit (Status (ascii ''Detectada playlist. Preparando itens...'')) w)
                 (length us) 0 us
           | None \<Rightarrow> download_one W (apply_ctls (pre (episode W 1)) w) 1 (url w)))"

text \<open>
  \<open>run\<close>: after the downloads the cancel flag chooses between the two finishing
  signals; any exception becomes the \<open>error\<close> signal with its message. A run that
  hangs emits no terminal signal.
\<close>

definition run :: "world \<Rightarrow> worker \<Rightarrow> outcome \<times> worker" where
  "run W w =
     (case downloads W w of
        (Done, w1) \<Rightarrow>
          let w2 = apply_ctls (final W) w1
          in (Done, emit (if cancel_event w2 then FinishedWithCancel else FinishedOk) w2)
      | (Raised e, w1) \<Rightarrow> (Done, emit (Error (str_exn e)) w1)
      | (Hang, w1) \<Rightarrow> (Hang, w1))"

text \<open>
  The single-item path on its own, as the specification describes it: the directory
  is made, the original identifier is downloaded as one item, and the run finishes.
\<close>

definition run_single_item :: "world \<Rightarrow> worker \<Rightarrow> outcome \<times> worker" where
  "run_single_item W w =
     (case (case mkdir W of
              Some e \<Rightarrow> (Raised e, w)
            | None \<Rightarrow> download_one W (apply_ctls (pre (episode W 1)) w) 1 (url w)) of
        (Done, w1) \<Rightarrow>
          let w2 = apply_ctls (final W) w1
          in (Done, emit (if cancel_event w2 then FinishedWithCancel else FinishedOk) w2)
      | (Raised e, w1) \<Rightarrow> (Done, emit (Error (str_exn e)) w1)
      | (Hang, w1) \<Rightarrow> (Hang, w1))"

section \<open>Notions used to state the properties\<close>

subsection \<open>Strings and variants\<close>

text \<open>
  A string in which whitespace is collapsed: every whitespace character is a space and
  is not followed by another whitespace character.
\<close>

fun ws_collapsed :: "pystr \<Rightarrow> bool" where
  "ws_collapsed [] = True"
| "ws_collapsed [c] = (isspace c \<longrightarrow> c = 32)"
| "ws_collapsed (c # d # cs) = ((isspace c \<longrightarrow> c = 32 \<and> \<not> isspace d) \<and> ws_collapsed (d # cs))"

text \<open>
  \<open>r\<close> is a candidate of highest resolution: it is one of the candidates, it has a
  resolution, and no candidate has a higher one.
\<close>

definition highest_resolution :: "stream \<Rightarrow> stream list \<Rightarrow> bool" where
  "highest_resolution r cands =
     (r \<in> set cands \<and>
      (\<exists>q. resolution r = Some q \<and> (\<forall>s \<in> set cands. \<forall>p. resolution s = Some p \<longrightarrow> p \<le> q)))"

subsection \<open>Signals of a run\<close>

fun is_item_done :: "event \<Rightarrow> bool" where
  "is_item_done (ItemDone t p) = True"
| "is_item_done e = False"

text \<open>The terminal signals: \<open>finished_ok\<close>, \<open>finished_with_cancel\<close> and \<open>error\<close>.\<close>

fun is_terminal :: "event \<Rightarrow> bool" where
  "is_terminal FinishedOk = True"
| "is_terminal FinishedWithCancel = True"
| "is_terminal (Error msg) = True"
| "is_terminal e = False"

fun done_title :: "event \<Rightarrow> pystr" where
  "done_title (ItemDone t p) = t"
| "done_title e = []"

text \<open>The title \<open>_download_one\<close> reports for a link: \<open>yt.title or title\<close>.\<close>

definition item_title :: "world \<Rightarrow> pystr \<Rightarrow> pystr" where
  "item_title W u =
     (case youtube W u of
        Inl e \<Rightarrow> []
      | Inr yt \<Rightarrow> str_or (title yt) (sanitize_filename (str_or (title yt) (ascii ''video''))))"

text \<open>The signals emitted between two states of the worker.\<close>

definition emitted :: "worker \<Rightarrow> worker \<Rightarrow> event list" where
  "emitted w w' = drop (length (events w)) (events w')"

text \<open>Signals among which there is no \<open>item_done\<close> and no terminal signal.\<close>

definition quiet :: "event list \<Rightarrow> bool" where
  "quiet evs = (filter is_item_done evs = [] \<and> filter is_terminal evs = [])"

subsection \<open>The value of a double\<close>

text \<open>The real number that \<open>Finite m e\<close> stands for, and half the relative spacing of doubles.\<close>

definition fval :: "int \<Rightarrow> int \<Rightarrow> real" where
  "fval m e = of_int m * 2 powi e"

definition ulp_half :: real where
  "ulp_half = 1 / 2 ^ 53"

subsection \<open>A run without failure or cancellation\<close>

text \<open>
  The pause flag after a list of control calls, on the flag alone.
\<close>

fun toggles :: "bool \<Rightarrow> ctl list \<Rightarrow> bool" where
  "toggles p [] = p"
| "toggles p (Cancel # cs) = toggles p cs"
| "toggles p (TogglePause # cs) = toggles (\<not> p) cs"

text \<open>
  A pause that is resumed: starting the pause loop with pause flag \<open>p\<close>, the flag is
  clear at the start or after one of the sleeps.
\<close>

fun wakes :: "bool \<Rightarrow> ctl list list \<Rightarrow> bool" where
  "wakes p [] = (\<not> p)"
| "wakes p (t # ts) = (\<not> p \<or> wakes (toggles p t) ts)"

text \<open>No \<open>cancel\<close> call arrives around a chunk.\<close>

definition calm :: "chunk \<Rightarrow> bool" where
  "calm c = (Cancel \<notin> set (before c) \<and> (\<forall>t \<in> set (sleeps c). Cancel \<notin> set t))"

text \<open>
  The quotient \<open>done / total\<close> is within the range of doubles, so that the division
  does not raise \<open>OverflowError\<close>.
\<close>

definition in_double_range :: "int \<Rightarrow> int \<Rightarrow> bool" where
  "in_double_range total_size r = (\<bar>total_size - r\<bar> < 2 ^ 1023 * \<bar>total_size\<bar>)"

text \<open>
  Every pause met by the chunks of one transfer is resumed; after a chunk callback has
  returned the pause flag is clear.
\<close>

fun chunks_wake :: "bool \<Rightarrow> chunk list \<Rightarrow> bool" where
  "chunks_wake p [] = True"
| "chunks_wake p (c # cs) = (wakes (toggles p (before c)) (sleeps c) \<and> chunks_wake False cs)"

text \<open>
  The \<open>k\<close>-th download, of link \<open>u\<close>, has what it needs to succeed: the link
  resolves, a variant matches the mode, the transfer has no fault, no \<open>cancel\<close> call
  arrives before or during it, and every chunk's quotient is within the range of
  doubles when the total is known and not zero.
\<close>

definition item_succeeds :: "world \<Rightarrow> pystr \<Rightarrow> nat \<Rightarrow> pystr \<Rightarrow> bool" where
  "item_succeeds W m k u =
     (case youtube W u of
        Inl e \<Rightarrow> False
      | Inr yt \<Rightarrow>
          (case select_stream m (streams yt) of
             None \<Rightarrow> False
           | Some s \<Rightarrow>
               fault (episode W k) = None \<and> Cancel \<notin> set (pre (episode W k)) \<and>
               (\<forall>c \<in> set (chunks (episode W k)).
                  calm c \<and>
                  (case py_or (filesize s) (filesize_approx s) of
                     None \<Rightarrow> True
                   | Some t \<Rightarrow> t = 0 \<or> in_double_range t (bytes_remaining c)))))"

text \<open>
  Every item of a playlist has what it needs to succeed, the items being numbered from
  \<open>count + 1\<close> as the loop numbers its downloads.
\<close>

fun items_succeed :: "world \<Rightarrow> pystr \<Rightarrow> nat \<Rightarrow> pystr list \<Rightarrow> bool" where
  "items_succeed W m count [] = True"
| "items_succeed W m count (u # us) =
     (item_succeeds W m (count + 1) u \<and> items_succeed W m (count + 1) us)"

text \<open>
  Every pause during the downloads of a playlist is resumed, the pause flag being \<open>p\<close>
  before the item numbered \<open>count + 1\<close>.
\<close>

fun pauses_resumed :: "world \<Rightarrow> bool \<Rightarrow> nat \<Rightarrow> pystr list \<Rightarrow> bool" where
  "pauses_resumed W p count [] = True"
| "pauses_resumed W p count (u # us) =
     (let p1 = toggles p (pre (episode W (count + 1)))
      in chunks_wake p1 (chunks (episode W (count + 1))) \<and>
         pauses_resumed W (if chunks (episode W (count + 1)) = [] then p1 else False)
           (count + 1) us)"

subsection \<open>Sample inputs\<close>

text \<open>
  A variant with a container and a resolution; a video with one progressive MP4 variant
  of 100 bytes; a world in which every link resolves to that video and every download
  follows the same episode; a fresh worker in mode \<open>full\<close>.
\<close>

definition variant :: "bool \<Rightarrow> bool \<Rightarrow> string \<Rightarrow> nat \<Rightarrow> stream" where
  "variant prog vonly sub res =
     \<lparr>progressive = prog, audio_only = False, video_only = vonly, subtype = Some (ascii sub),
      mime_type = ascii ''video/'' @ ascii sub, filesize = None, filesize_approx = None,
      resolution = Some res, abr = None\<rparr>"

definition sample_video :: video where
  "sample_video =
     \<lparr>title = ascii ''My Video'',
      streams = Inr [(variant True False ''mp4'' 720)\<lparr>filesize := Some 100\<rparr>]\<rparr>"

definition sample_world :: "(exn + pystr list) \<Rightarrow> episode \<Rightarrow> world" where
  "sample_world pl ep =
     \<lparr>mkdir = None, playlist = (\<lambda>u. pl), youtube = (\<lambda>u. Inr sample_video),
      episode = (\<lambda>n. ep), final = []\<rparr>"

definition sample_worker :: worker where
  "sample_worker = init (ascii ''https://youtu.be/x'') (ascii ''downloads'') (ascii ''full'') []"

definition one_chunk :: "ctl list \<Rightarrow> ctl list list \<Rightarrow> int \<Rightarrow> episode" where
  "one_chunk bf sl rem =
     \<lparr>pre = [], chunks = [\<lparr>before = bf, sleeps = sl, bytes_remaining = rem\<rparr>], fault = None\<rparr>"

lemmas run_eval =
  run_def run_single_item_def downloads_def playlist_urls_def iter_playlist.simps
  download_one_def transfer.simps on_progress_def
  pause_wait.simps apply_ctls_def emit_def cancel_def toggle_pause_def init_def
  effective_total_def py_or_def truthy_def select_stream_def order_by_def desc_def first_def
  is_mp4_def extension_def str_or_def sanitize_filename_def strip_def replace_illegal_def
  illegal_def isspace_def unique_path_def unique_loop.simps path_join_def plain_name_def
  numbered_name_def str_nat.simps ascii_def msg_cancel_paused_def msg_cancel_user_def
  msg_no_stream_def Let_def
  sample_video_def sample_world_def sample_worker_def one_chunk_def variant_def

lemmas percent_eval =
  percent_def py_truediv_def round_ratio_def floor_log2_def round_half_even_def too_large_def
  bit_length.simps py_min_def

section \<open>Properties of the filename resolver\<close>

subsection \<open>Sanitized names\<close>

lemma ws_collapsed_Cons:
  "ws_collapsed (c # cs) = ((isspace c \<longrightarrow> c = 32 \<and> (cs = [] \<or> \<not> isspace (hd cs))) \<and> ws_collapsed cs)"
  by (cases cs) auto

lemma hd_collapse_ws:
  "s \<noteq> [] \<Longrightarrow> \<not> isspace (hd s) \<Longrightarrow> collapse_ws s \<noteq> [] \<and> hd (collapse_ws s) = hd s"
  by (cases s) auto

lemma collapse_ws_eq_Nil: "collapse_ws s = [] \<longleftrightarrow> s = []"
  by (cases s) auto

lemma dropWhile_hd: "dropWhile P xs = [] \<or> \<not> P (hd (dropWhile P xs))"
  by (metis hd_dropWhile)

lemma ws_collapsed_collapse_ws: "ws_collapsed (collapse_ws s)"
proof (induction s rule: collapse_ws.induct)
  case 1
  show ?case by simp
next
  case (2 c cs)
  show ?case
  proof (cases "isspace c")
    case True
    have "collapse_ws (dropWhile isspace cs) = [] \<or> \<not> isspace (hd (collapse_ws (dropWhile isspace cs)))"
    proof (cases "dropWhile isspace cs = []")
      case True
      then show ?thesis by (simp add: collapse_ws_eq_Nil)
    next
      case False
      then have "\<not> isspace (hd (dropWhile isspace cs))"
        using dropWhile_hd[of isspace cs] by blast
      with False show ?thesis
        using hd_collapse_ws[of "dropWhile isspace cs"] by simp
    qed
    with True 2 show ?thesis by (simp add: ws_collapsed_Cons)
  next
    case False
    with 2 show ?thesis by (simp add: ws_collapsed_Cons)
  qed
qed

lemma ws_collapsed_take: "ws_collapsed xs \<Longrightarrow> ws_collapsed (take n xs)"
proof (induction xs arbitrary: n rule: ws_collapsed.induct)
  case 1
  then show ?case by simp
next
  case (2 c)
  then show ?case by (cases n) auto
next
  case (3 c d cs)
  show ?case
  proof (cases n)
    case 0
    then show ?thesis by simp
  next
    case (Suc m)
    from 3 have "ws_collapsed (take m (d # cs))" by simp
    moreover have "take m (d # cs) = [] \<or> hd (take m (d # cs)) = d"
      by (cases m) auto
    ultimately show ?thesis
      using 3(2) Suc by (auto simp: ws_collapsed_Cons)
  qed
qed

lemma ws_collapsed_nth:
  "ws_collapsed xs \<Longrightarrow> i < length xs \<Longrightarrow> isspace (xs ! i) \<Longrightarrow>
     xs ! i = 32 \<and> (Suc i < length xs \<longrightarrow> \<not> isspace (xs ! Suc i))"
proof (induction xs arbitrary: i rule: ws_collapsed.induct)
  case 1
  then show ?case by simp
next
  case (2 c)
  then show ?case by simp
next
  case (3 c d cs)
  show ?case
  proof (cases i)
    case 0
    with 3 show ?thesis by simp
  next
    case (Suc j)
    with 3 show ?thesis by simp
  qed
qed

lemma set_collapse_ws: "set (collapse_ws s) \<subseteq> insert 32 (set s)"
proof (induction s rule: collapse_ws.induct)
  case 1
  show ?case by simp
next
  case (2 c cs)
  then show ?case using set_dropWhileD[of _ isspace cs] by auto
qed

lemma replace_illegal_legal: "c \<in> set (replace_illegal s) \<Longrightarrow> c \<notin> illegal"
  by (auto simp: replace_illegal_def illegal_def)

text \<open>
  C6. For every title, the output of \<open>sanitize_filename\<close> contains none of the
  characters \<open>\ / : * ? " < > |\<close>, has every run of whitespace collapsed to a single
  space (each whitespace character of the output is a space, and the character after
  it is not whitespace), and has at most 180 characters.
\<close>

theorem sanitize_filename_safe:
  "(\<forall>c \<in> set (sanitize_filename name). c \<notin> illegal) \<and>
   (\<forall>i < length (sanitize_filename name). isspace (sanitize_filename name ! i) \<longrightarrow>
       sanitize_filename name ! i = 32 \<and>
       (Suc i < length (sanitize_filename name) \<longrightarrow> \<not> isspace (sanitize_filename name ! Suc i))) \<and>
   length (sanitize_filename name) \<le> 180"
proof -
  have "c \<notin> illegal" if "c \<in> set (sanitize_filename name)" for c
  proof -
    from that have "c \<in> set (collapse_ws (replace_illegal (strip name)))"
      unfolding sanitize_filename_def by (rule in_set_takeD)
    then have "c = 32 \<or> c \<in> set (replace_illegal (strip name))"
      using set_collapse_ws by blast
    then show ?thesis
      using replace_illegal_legal by (auto simp: illegal_def)
  qed
  moreover have "ws_collapsed (sanitize_filename name)"
    unfolding sanitize_filename_def by (intro ws_collapsed_take ws_collapsed_collapse_ws)
  moreover have "length (sanitize_filename name) \<le> 180"
    by (simp add: sanitize_filename_def)
  ultimately show ?thesis
    using ws_collapsed_nth by blast
qed

theorem sanitize_filename_safe_witness:
  "47 \<notin> set (sanitize_filename (ascii ''a/b  :  c'')) \<and>
   58 \<notin> set (sanitize_filename (ascii ''a/b  :  c'')) \<and>
   length (sanitize_filename (ascii ''a/b  :  c'')) \<le> 180 \<and>
   sanitize_filename (ascii ''a/b  :  c'') = ascii ''a_b _ c''"
proof -
  have "sanitize_filename (ascii ''a/b  :  c'') = ascii ''a_b _ c''"
    by (simp add: sanitize_filename_def strip_def replace_illegal_def illegal_def isspace_def
        ascii_def)
  then show ?thesis
    using sanitize_filename_safe[of "ascii ''a/b  :  c''"] by (auto simp: illegal_def)
qed

subsection \<open>Unique paths\<close>

lemma unique_loop_fresh:
  "unique_loop fs dir base ext candidate idx \<notin> set fs"
proof (induction fs dir base ext candidate idx rule: unique_loop.induct)
  case (1 fs dir base ext candidate idx)
  then show ?case
    by (cases "candidate \<in> set fs")
       (simp_all add: unique_loop.simps[of fs dir base ext candidate idx])
qed

lemma unique_loop_skips:
  assumes "\<forall>k. idx \<le> k \<and> k < n \<longrightarrow> path_join dir (numbered_name base ext k) \<in> set fs"
    and "path_join dir (numbered_name base ext n) \<notin> set fs"
    and "idx \<le> n"
    and "candidate \<in> set fs"
  shows "unique_loop fs dir base ext candidate idx
           = path_join dir (numbered_name base ext n)"
  using assms
proof (induction "n - idx" arbitrary: idx candidate)
  case 0
  then have "idx = n" by simp
  with 0 show ?case
    by (simp add: unique_loop.simps[of fs dir base ext candidate n]
        unique_loop.simps[of fs dir base ext _ "Suc n"])
next
  case (Suc d)
  then have lt: "idx < n" by simp
  with Suc.prems have ex: "path_join dir (numbered_name base ext idx) \<in> set fs"
    by simp
  have "unique_loop fs dir base ext
          (path_join dir (numbered_name base ext idx)) (Suc idx)
        = path_join dir (numbered_name base ext n)"
  proof (rule Suc.hyps(1))
    show "d = n - Suc idx" using Suc.hyps(2) by simp
    show "\<forall>k. Suc idx \<le> k \<and> k < n \<longrightarrow> path_join dir (numbered_name base ext k) \<in> set fs"
      using Suc.prems(1) by simp
    show "path_join dir (numbered_name base ext n) \<notin> set fs" by (rule Suc.prems(2))
    show "Suc idx \<le> n" using lt by simp
    show "path_join dir (numbered_name base ext idx) \<in> set fs" by (rule ex)
  qed
  with Suc.prems(4) show ?case
    by (simp add: unique_loop.simps[of fs dir base ext candidate idx])
qed

text \<open>
  C7. For every state of the file system, base name and extension, \<open>unique_path\<close>
  returns a path that does not exist; and when the first \<open>n\<close> candidates
  (\<open>base.ext\<close>, \<open>base (1).ext\<close>, ..., \<open>base (n-1).ext\<close>) exist and the next one does
  not, it returns that next, \<open>(n+1)\<close>-th, candidate.
\<close>

theorem unique_path_fresh_and_next:
  "unique_path fs dir base ext \<notin> set fs \<and>
   ((\<forall>k < n. candidate_path dir base ext k \<in> set fs) \<and>
    candidate_path dir base ext n \<notin> set fs
    \<longrightarrow> unique_path fs dir base ext = candidate_path dir base ext n)"
proof (intro conjI impI)
  show "unique_path fs dir base ext \<notin> set fs"
    unfolding unique_path_def by (rule unique_loop_fresh)
next
  assume a: "(\<forall>k < n. candidate_path dir base ext k \<in> set fs) \<and>
    candidate_path dir base ext n \<notin> set fs"
  show "unique_path fs dir base ext = candidate_path dir base ext n"
  proof (cases n)
    case 0
    with a show ?thesis
      by (simp add: unique_path_def candidate_path_def
          unique_loop.simps[of fs dir base ext _ "Suc 0"])
  next
    case (Suc m)
    have "unique_loop fs dir base ext (path_join dir (plain_name base ext)) 1
          = path_join dir (numbered_name base ext n)"
    proof (rule unique_loop_skips)
      show "\<forall>k. 1 \<le> k \<and> k < n \<longrightarrow> path_join dir (numbered_name base ext k) \<in> set fs"
        using a by (auto simp: candidate_path_def)
      show "path_join dir (numbered_name base ext n) \<notin> set fs"
        using a Suc by (simp add: candidate_path_def)
      show "1 \<le> n" using Suc by simp
      show "path_join dir (plain_name base ext) \<in> set fs"
        using a Suc by (auto simp: candidate_path_def)
    qed
    with Suc show ?thesis by (simp add: unique_path_def candidate_path_def)
  qed
qed

theorem unique_path_fresh_and_next_witness:
  "unique_path [ascii ''downloads/My Video.mp4''] (ascii ''downloads'') (ascii ''My Video'') (ascii ''mp4'')
     \<notin> set [ascii ''downloads/My Video.mp4''] \<and>
   unique_path [ascii ''downloads/My Video.mp4''] (ascii ''downloads'') (ascii ''My Video'') (ascii ''mp4'')
     = ascii ''downloads/My Video (1).mp4''"
  using unique_path_fresh_and_next[of "[ascii ''downloads/My Video.mp4'']" "ascii ''downloads''"
      "ascii ''My Video''" "ascii ''mp4''" 1]
  by (simp add: candidate_path_def path_join_def plain_name_def numbered_name_def ascii_def
      str_nat.simps)

section \<open>Properties of the stream selector\<close>

lemma first_desc_None: "first (desc xs) = None \<longleftrightarrow> xs = []"
  by (cases "rev xs") (auto simp: first_def desc_def)

lemma first_desc_Some: "xs \<noteq> [] \<Longrightarrow> first (desc xs) = Some (last xs)"
  by (cases xs rule: rev_cases) (auto simp: first_def desc_def)

lemma order_by_Nil: "order_by attr xs = [] \<longleftrightarrow> (\<forall>s \<in> set xs. attr s = None)"
proof -
  have "order_by attr xs = [] \<longleftrightarrow> set (order_by attr xs) = {}" by simp
  also have "\<dots> \<longleftrightarrow> (\<forall>s \<in> set xs. attr s = None)"
    by (auto simp: order_by_def)
  finally show ?thesis .
qed

lemma sorted_le_last: "sorted xs \<Longrightarrow> (x::nat) \<in> set xs \<Longrightarrow> x \<le> last xs"
  by (induction xs rule: rev_induct) (auto simp: sorted_append)

lemma last_order_by:
  assumes "order_by attr xs \<noteq> []"
  shows "last (order_by attr xs) \<in> set xs"
    and "\<exists>q. attr (last (order_by attr xs)) = Some q \<and>
             (\<forall>s \<in> set xs. \<forall>p. attr s = Some p \<longrightarrow> p \<le> q)"
proof -
  let ?ys = "order_by attr xs"
  let ?key = "\<lambda>s. the (attr s)"
  have mem: "last ?ys \<in> set ?ys" using assms by (rule last_in_set)
  then show "last ?ys \<in> set xs" by (simp add: order_by_def)
  from mem obtain q where q: "attr (last ?ys) = Some q" by (auto simp: order_by_def)
  have srt: "sorted (map ?key ?ys)" by (simp add: order_by_def)
  have "p \<le> q" if "s \<in> set xs" and "attr s = Some p" for s p
  proof -
    from that have "s \<in> set ?ys" by (simp add: order_by_def)
    then have "?key s \<in> set (map ?key ?ys)" by simp
    with srt have "?key s \<le> last (map ?key ?ys)" by (rule sorted_le_last)
    also have "last (map ?key ?ys) = ?key (last ?ys)" using assms by (rule last_map)
    finally show ?thesis using that q by simp
  qed
  with q show "\<exists>q. attr (last ?ys) = Some q \<and> (\<forall>s \<in> set xs. \<forall>p. attr s = Some p \<longrightarrow> p \<le> q)"
    by blast
qed

lemma best_None:
  "first (desc (order_by resolution xs)) = None \<longleftrightarrow> (\<forall>s \<in> set xs. resolution s = None)"
  by (simp add: first_desc_None order_by_Nil)

lemma best_Some:
  assumes "\<exists>s \<in> set xs. resolution s \<noteq> None"
  shows "\<exists>r. first (desc (order_by resolution xs)) = Some r \<and> highest_resolution r xs"
proof -
  from assms have ne: "order_by resolution xs \<noteq> []" by (simp add: order_by_Nil)
  then have "first (desc (order_by resolution xs)) = Some (last (order_by resolution xs))"
    by (rule first_desc_Some)
  moreover have "highest_resolution (last (order_by resolution xs)) xs"
    unfolding highest_resolution_def using last_order_by[OF ne] by blast
  ultimately show ?thesis by blast
qed

text \<open>
  C5. With profile \<open>full\<close> the selector returns a progressive MP4 variant of highest
  resolution when one exists; otherwise a progressive variant of highest resolution in
  any container when one exists; otherwise none. (A variant is ranked when it has a
  resolution: the client's \<open>order_by\<close> leaves out the others.) In particular, for the
  variants progressive MP4 480p, progressive MP4 720p, video-only 1080p it returns the
  720p progressive MP4.
\<close>

theorem select_stream_full:
  "((\<exists>s \<in> set ss. progressive s \<and> is_mp4 s \<and> resolution s \<noteq> None) \<longrightarrow>
      (\<exists>r. select_stream (ascii ''full'') (Inr ss) = Some r \<and>
           highest_resolution r (filter (\<lambda>s. progressive s \<and> is_mp4 s) ss))) \<and>
   (\<not> (\<exists>s \<in> set ss. progressive s \<and> is_mp4 s \<and> resolution s \<noteq> None) \<and>
    (\<exists>s \<in> set ss. progressive s \<and> resolution s \<noteq> None) \<longrightarrow>
      (\<exists>r. select_stream (ascii ''full'') (Inr ss) = Some r \<and>
           highest_resolution r (filter progressive ss))) \<and>
   (\<not> (\<exists>s \<in> set ss. progressive s \<and> resolution s \<noteq> None) \<longrightarrow>
      select_stream (ascii ''full'') (Inr ss) = None) \<and>
   select_stream (ascii ''full'')
       (Inr [variant True False ''mp4'' 480, variant True False ''mp4'' 720,
             variant False True ''mp4'' 1080])
     = Some (variant True False ''mp4'' 720)"
proof (intro conjI impI)
  let ?mp4 = "filter (\<lambda>s. progressive s \<and> is_mp4 s) ss"
  let ?prog = "filter progressive ss"
  have sel: "select_stream (ascii ''full'') (Inr ss) =
      (case first (desc (order_by resolution ?mp4)) of
         None \<Rightarrow> first (desc (order_by resolution ?prog)) | Some s \<Rightarrow> Some s)"
    by (simp add: select_stream_def)
  {
    assume "\<exists>s \<in> set ss. progressive s \<and> is_mp4 s \<and> resolution s \<noteq> None"
    then have "\<exists>s \<in> set ?mp4. resolution s \<noteq> None" by auto
    from best_Some[OF this] show "\<exists>r. select_stream (ascii ''full'') (Inr ss) = Some r \<and>
           highest_resolution r ?mp4"
      using sel by auto
  next
    assume a: "\<not> (\<exists>s \<in> set ss. progressive s \<and> is_mp4 s \<and> resolution s \<noteq> None) \<and>
      (\<exists>s \<in> set ss. progressive s \<and> resolution s \<noteq> None)"
    then have "first (desc (order_by resolution ?mp4)) = None"
      by (auto simp: best_None)
    moreover from a have "\<exists>s \<in> set ?prog. resolution s \<noteq> None" by auto
    ultimately show "\<exists>r. select_stream (ascii ''full'') (Inr ss) = Some r \<and>
           highest_resolution r ?prog"
      using best_Some[of ?prog] sel by auto
  next
    assume a: "\<not> (\<exists>s \<in> set ss. progressive s \<and> resolution s \<noteq> None)"
    then have "first (desc (order_by resolution ?mp4)) = None"
      and "first (desc (order_by resolution ?prog)) = None"
      by (auto simp: best_None)
    then show "select_stream (ascii ''full'') (Inr ss) = None"
      using sel by simp
  next
    show "select_stream (ascii ''full'')
       (Inr [variant True False ''mp4'' 480, variant True False ''mp4'' 720,
             variant False True ''mp4'' 1080])
     = Some (variant True False ''mp4'' 720)"
      by (simp add: select_stream_def order_by_def desc_def first_def is_mp4_def variant_def ascii_def)
  }
qed

theorem select_stream_full_witness:
  "select_stream (ascii ''full'')
       (Inr [variant True False ''webm'' 360, variant True False ''webm'' 240,
             variant False True ''mp4'' 1080])
     = Some (variant True False ''webm'' 360)"
proof -
  let ?ss = "[variant True False ''webm'' 360, variant True False ''webm'' 240,
             variant False True ''mp4'' 1080]"
  have "\<not> (\<exists>s \<in> set ?ss. progressive s \<and> is_mp4 s \<and> resolution s \<noteq> None) \<and>
    (\<exists>s \<in> set ?ss. progressive s \<and> resolution s \<noteq> None)"
    by (simp add: variant_def is_mp4_def ascii_def)
  with select_stream_full[of ?ss] obtain r where
    r: "select_stream (ascii ''full'') (Inr ?ss) = Some r" "highest_resolution r (filter progressive ?ss)"
    by blast
  from r(2) have "r = variant True False ''webm'' 360"
    by (auto simp: highest_resolution_def variant_def)
  with r(1) show ?thesis by simp
qed

section \<open>Properties of the control signal\<close>

lemma cancel_event_apply_ctl: "cancel_event w \<Longrightarrow> cancel_event (apply_ctl a w)"
  by (cases a) (simp_all add: cancel_def toggle_pause_def)

lemma cancel_event_apply_ctls: "cancel_event w \<Longrightarrow> cancel_event (apply_ctls cs w)"
  unfolding apply_ctls_def
  by (induction cs arbitrary: w) (simp_all add: cancel_event_apply_ctl)

lemma cancel_event_emit [simp]: "cancel_event (emit e w) = cancel_event w"
  by (simp add: emit_def)

lemma cancel_event_pause_wait:
  "cancel_event w \<Longrightarrow> cancel_event (snd (pause_wait w ts))"
  by (induction w ts rule: pause_wait.induct) (simp_all add: cancel_event_apply_ctls)

lemma cancel_event_on_progress:
  "cancel_event w \<Longrightarrow> cancel_event (snd (on_progress w s c))"
proof -
  assume "cancel_event w"
  then have "cancel_event (snd (pause_wait (apply_ctls (before c) w) (sleeps c)))"
    by (intro cancel_event_pause_wait cancel_event_apply_ctls)
  then show ?thesis
    by (auto simp: on_progress_def split: prod.splits outcome.splits option.splits sum.splits)
qed

lemma cancel_event_transfer:
  "cancel_event w \<Longrightarrow> cancel_event (snd (transfer w s cs flt))"
proof (induction cs arbitrary: w)
  case Nil
  then show ?case by (simp split: option.splits)
next
  case (Cons c cs)
  from Cons.prems have "cancel_event (snd (on_progress w s c))"
    by (rule cancel_event_on_progress)
  with Cons.IH show ?case
    by (auto split: prod.splits outcome.splits)
qed

lemma cancel_event_transferD:
  "transfer w s cs flt = (r, w') \<Longrightarrow> cancel_event w \<Longrightarrow> cancel_event w'"
  using cancel_event_transfer[of w s cs flt] by simp

lemma cancel_event_download_one:
  "cancel_event w \<Longrightarrow> cancel_event (snd (download_one W w n link))"
  unfolding download_one_def Let_def
  by (auto split: sum.splits option.splits prod.splits outcome.splits
      dest!: cancel_event_transferD)

lemma cancel_event_iter_playlist:
  "cancel_event w \<Longrightarrow> cancel_event (snd (iter_playlist W w tot cnt us))"
proof (induction us arbitrary: w cnt)
  case Nil
  then show ?case by simp
next
  case (Cons u us)
  then show ?case
    by (simp add: Let_def cancel_event_apply_ctls)
qed

lemma cancel_event_downloads:
  "cancel_event w \<Longrightarrow> cancel_event (snd (downloads W w))"
  unfolding downloads_def
  by (auto split: option.splits
      intro!: cancel_event_iter_playlist cancel_event_download_one cancel_event_apply_ctls)

lemma cancel_event_run:
  assumes "cancel_event w"
  shows "cancel_event (snd (run W w))"
proof -
  from assms have "cancel_event (snd (downloads W w))" by (rule cancel_event_downloads)
  then show ?thesis
    unfolding run_def Let_def
    by (auto split: prod.splits outcome.splits simp: cancel_event_apply_ctls)
qed

lemma pause_event_toggles:
  "pause_event (apply_ctls (replicate n TogglePause) w) = (if even n then pause_event w else \<not> pause_event w)"
  unfolding apply_ctls_def
  by (induction n arbitrary: w) (auto simp: toggle_pause_def)

text \<open>
  C9. Once the cancel flag is set it stays set: no sequence of control calls clears it,
  and neither does any step of the worker (a progress callback, a download, the
  playlist loop, the whole run). The pause flag is flipped by every \<open>toggle_pause\<close>,
  whatever the cancel flag is, so \<open>k\<close> toggles leave it as it was when \<open>k\<close> is even
  and flipped when \<open>k\<close> is odd.
\<close>

theorem cancel_sticky_pause_free:
  "(cancel_event w \<longrightarrow> cancel_event (apply_ctls cs w)) \<and>
   (cancel_event w \<longrightarrow> cancel_event (snd (on_progress w s c))) \<and>
   (cancel_event w \<longrightarrow> cancel_event (snd (download_one W w n link))) \<and>
   (cancel_event w \<longrightarrow> cancel_event (snd (iter_playlist W w tot cnt us))) \<and>
   (cancel_event w \<longrightarrow> cancel_event (snd (run W w))) \<and>
   cancel_event (cancel w) \<and>
   pause_event (toggle_pause w) = (\<not> pause_event w) \<and>
   cancel_event (toggle_pause w) = cancel_event w \<and>
   pause_event (apply_ctls (replicate k TogglePause) w)
     = (if even k then pause_event w else \<not> pause_event w)"
  using cancel_event_apply_ctls cancel_event_on_progress cancel_event_download_one
    cancel_event_iter_playlist cancel_event_run pause_event_toggles
  by (simp add: cancel_def toggle_pause_def)

theorem cancel_sticky_pause_free_witness:
  "cancel_event (apply_ctls [TogglePause, Cancel, TogglePause] (cancel sample_worker)) \<and>
   cancel_event (snd (run (sample_world (Inl (Exception [])) (one_chunk [] [] 50))
                        (cancel sample_worker))) \<and>
   pause_event (apply_ctls (replicate 3 TogglePause) sample_worker)"
  using cancel_sticky_pause_free[where w = "cancel sample_worker"
      and cs = "[TogglePause, Cancel, TogglePause]"
      and W = "sample_world (Inl (Exception [])) (one_chunk [] [] 50)"]
    cancel_sticky_pause_free[where w = sample_worker and k = 3]
  by (simp add: cancel_def sample_worker_def init_def)

section \<open>Properties of the orchestrator\<close>

subsection \<open>Falling back to the single-item path\<close>

text \<open>
  C8. When reading the identifier as a playlist raises, or gives no item, the run is
  the single-item run on the original identifier: whatever was raised is not reported,
  and no signal comes from the failed attempt.
\<close>

theorem playlist_failure_is_single_item:
  "(case playlist W (url w) of Inl e \<Rightarrow> True | Inr us \<Rightarrow> us = []) \<Longrightarrow>
   run W w = run_single_item W w"
  by (auto simp: run_def run_single_item_def downloads_def playlist_urls_def
      split: sum.splits option.splits)

theorem playlist_failure_is_single_item_witness:
  "run (sample_world (Inl (Exception (ascii ''not a playlist''))) (one_chunk [] [] 0)) sample_worker
     = run_single_item (sample_world (Inl (Exception (ascii ''not a playlist''))) (one_chunk [] [] 0))
         sample_worker \<and>
   run (sample_world (Inr []) (one_chunk [] [] 0)) sample_worker
     = run_single_item (sample_world (Inr []) (one_chunk [] [] 0)) sample_worker"
  using playlist_failure_is_single_item[of
      "sample_world (Inl (Exception (ascii ''not a playlist''))) (one_chunk [] [] 0)" sample_worker]
    playlist_failure_is_single_item[of "sample_world (Inr []) (one_chunk [] [] 0)" sample_worker]
  by (simp add: sample_world_def)

subsection \<open>Signals emitted by each step\<close>

lemma quiet_simps [simp]:
  "quiet []"
  "quiet (e # xs) = (\<not> is_item_done e \<and> \<not> is_terminal e \<and> quiet xs)"
  "quiet (xs @ ys) = (quiet xs \<and> quiet ys)"
  by (auto simp: quiet_def)

lemma events_apply_ctl [simp]: "events (apply_ctl a w) = events w"
  by (cases a) (simp_all add: cancel_def toggle_pause_def)

lemma events_apply_ctls [simp]: "events (apply_ctls cs w) = events w"
  unfolding apply_ctls_def by (induction cs arbitrary: w) simp_all

lemma events_pause_wait [simp]: "events (snd (pause_wait w ts)) = events w"
  by (induction w ts rule: pause_wait.induct) simp_all

lemma events_on_progress:
  "\<exists>evs. events (snd (on_progress w s c)) = events w @ evs \<and> quiet evs"
proof -
  obtain r w1 where pw: "pause_wait (apply_ctls (before c) w) (sleeps c) = (r, w1)"
    by (cases "pause_wait (apply_ctls (before c) w) (sleeps c)")
  then have "events w1 = events w"
    using events_pause_wait[of "apply_ctls (before c) w" "sleeps c"] by simp
  with pw show ?thesis
    by (auto simp: on_progress_def emit_def split: outcome.splits option.splits sum.splits)
qed

lemma events_transfer:
  "\<exists>evs. events (snd (transfer w s cs flt)) = events w @ evs \<and> quiet evs"
proof (induction cs arbitrary: w)
  case Nil
  show ?case by (simp split: option.splits)
next
  case (Cons c cs)
  obtain r w1 where op: "on_progress w s c = (r, w1)" by (cases "on_progress w s c")
  from events_on_progress[of w s c] op obtain evs1 where
    e1: "events w1 = events w @ evs1" "quiet evs1" by auto
  show ?case
  proof (cases r)
    case Done
    from Cons.IH[of w1] obtain evs2 where
      "events (snd (transfer w1 s cs flt)) = events w1 @ evs2" "quiet evs2" by blast
    with e1 op Done show ?thesis by simp
  next
    case (Raised e)
    with e1 op show ?thesis by simp
  next
    case Hang
    with e1 op show ?thesis by simp
  qed
qed

lemma events_download_one:
  assumes "download_one W w n u = (Done, w')"
  shows "\<exists>evs p. events w' = events w @ evs @ [ItemDone (item_title W u) p] \<and> quiet evs"
proof -
  from assms obtain yt where yt: "youtube W u = Inr yt"
    by (auto simp: download_one_def split: sum.splits)
  from assms yt obtain s where s: "select_stream (mode w) (streams yt) = Some s"
    by (auto simp: download_one_def Let_def split: option.splits)
  define name where "name = sanitize_filename (str_or (title yt) (ascii ''video''))"
  define w1 where "w1 = w\<lparr>current_total := py_or (filesize s) (filesize_approx s)\<rparr>"
  define out_path where "out_path = unique_path (files w1) (dest_dir w1) name (extension s)"
  define w2 where "w2 = emit (Status (ascii ''Iniciando: '' @ title yt)) w1"
  define w3 where "w3 = w2\<lparr>files := out_path # files w2\<rparr>"
  obtain r w4 where tr: "transfer w3 s (chunks (episode W n)) (fault (episode W n)) = (r, w4)"
    by (cases "transfer w3 s (chunks (episode W n)) (fault (episode W n))")
  from assms yt s tr have r: "r = Done"
    and w': "w' = emit (ItemDone (str_or (title yt) name) out_path) (emit (Progress 100) w4)"
    unfolding download_one_def Let_def name_def w1_def out_path_def w2_def w3_def
    by (auto split: outcome.splits)
  from events_transfer[of w3 s "chunks (episode W n)" "fault (episode W n)"] tr
  obtain evs where evs: "events w4 = events w3 @ evs" "quiet evs" by auto
  have "events w3 = events w @ [Status (ascii ''Iniciando: '' @ title yt)]"
    by (simp add: w3_def w2_def w1_def emit_def)
  with evs w' have "events w' = events w @ ([Status (ascii ''Iniciando: '' @ title yt)] @ evs @ [Progress 100])
      @ [ItemDone (item_title W u) out_path]"
    by (simp add: emit_def item_title_def yt name_def)
  moreover have "quiet ([Status (ascii ''Iniciando: '' @ title yt)] @ evs @ [Progress 100])"
    using evs(2) by simp
  ultimately show ?thesis by blast
qed

lemma events_iter_playlist:
  assumes "iter_playlist W w tot cnt us = (Done, w')" and "\<not> cancel_event w'"
  shows "\<exists>evs. events w' = events w @ evs \<and>
           map done_title (filter is_item_done evs) = map (item_title W) us \<and>
           filter is_terminal evs = []"
  using assms
proof (induction us arbitrary: w cnt)
  case Nil
  then show ?case by simp
next
  case (Cons u us)
  define w1 where "w1 = apply_ctls (pre (episode W (cnt + 1))) w"
  define st where "st = Status (ascii ''Baixando item '' @ str_nat (cnt + 1) @ ascii ''/'' @ str_nat tot)"
  have nc: "\<not> cancel_event w1"
  proof
    assume "cancel_event w1"
    with Cons.prems(1) have "w' = w1" by (simp add: w1_def Let_def)
    with \<open>cancel_event w1\<close> Cons.prems(2) show False by simp
  qed
  obtain r w2 where d: "download_one W (emit st w1) (cnt + 1) u = (r, w2)"
    by (cases "download_one W (emit st w1) (cnt + 1) u")
  from Cons.prems(1) nc d have r: "r = Done" and rest: "iter_playlist W w2 tot (cnt + 1) us = (Done, w')"
    by (auto simp: w1_def st_def Let_def split: outcome.splits)
  from events_download_one[of W "emit st w1" "cnt + 1" u w2] d r
  obtain evs1 p where e1: "events w2 = events (emit st w1) @ evs1 @ [ItemDone (item_title W u) p]" "quiet evs1"
    by auto
  from Cons.IH[OF rest Cons.prems(2)] obtain evs2 where
    e2: "events w' = events w2 @ evs2"
      "map done_title (filter is_item_done evs2) = map (item_title W) us"
      "filter is_terminal evs2 = []" by blast
  have "events w' = events w @ ([st] @ evs1 @ [ItemDone (item_title W u) p] @ evs2)"
    using e1(1) e2(1) by (simp add: emit_def w1_def)
  moreover have "map done_title (filter is_item_done ([st] @ evs1 @ [ItemDone (item_title W u) p] @ evs2))
      = map (item_title W) (u # us)"
    using e1(2) e2(2) by (simp add: quiet_def st_def)
  moreover have "filter is_terminal ([st] @ evs1 @ [ItemDone (item_title W u) p] @ evs2) = []"
    using e1(2) e2(3) by (simp add: quiet_def st_def)
  ultimately show ?case by blast
qed

text \<open>
  When the download phase of a playlist run returns and the cancel flag is clear at
  the final test, the run has emitted one \<open>item_done\<close> per item, in order, and
  \<open>finished_ok\<close> last.
\<close>

lemma playlist_done_signals:
  assumes "playlist W (url w) = Inr us" and "us \<noteq> []"
    and "fst (downloads W w) = Done"
    and "\<not> cancel_event (apply_ctls (final W) (snd (downloads W w)))"
  shows "fst (run W w) = Done \<and>
         length (filter is_item_done (emitted w (snd (run W w)))) = length us \<and>
         map done_title (filter is_item_done (emitted w (snd (run W w)))) = map (item_title W) us \<and>
         filter is_terminal (emitted w (snd (run W w))) = [FinishedOk] \<and>
         last (emitted w (snd (run W w))) = FinishedOk"
proof -
  obtain w1 where d: "downloads W w = (Done, w1)"
    using assms(3) by (cases "downloads W w") simp
  from assms(4) d have nc: "\<not> cancel_event (apply_ctls (final W) w1)" by simp
  then have nc1: "\<not> cancel_event w1" using cancel_event_apply_ctls by blast
  define w0 where "w0 = emit (Status (ascii ''Detectada playlist. Preparando itens...'')) w"
  from assms(1,2) have pu: "playlist_urls W (url w) = Some us"
    by (simp add: playlist_urls_def)
  with d have it: "iter_playlist W w0 (length us) 0 us = (Done, w1)"
    by (auto simp: downloads_def w0_def split: option.splits)
  from events_iter_playlist[OF it nc1] obtain evs where
    evs: "events w1 = events w0 @ evs"
      "map done_title (filter is_item_done evs) = map (item_title W) us"
      "filter is_terminal evs = []" by blast
  have run: "run W w = (Done, emit FinishedOk (apply_ctls (final W) w1))"
    using d nc by (simp add: run_def Let_def)
  have em: "emitted w (snd (run W w))
      = Status (ascii ''Detectada playlist. Preparando itens...'') # evs @ [FinishedOk]"
    using evs(1) by (simp add: run emitted_def emit_def w0_def)
  have "length (filter is_item_done evs) = length us"
    using arg_cong[OF evs(2), of length] by simp
  moreover have "fst (run W w) = Done" by (simp add: run)
  ultimately show ?thesis
    using evs(2,3) by (simp add: em)
qed

section \<open>Properties of the progress tracker\<close>

lemma current_total_apply_ctl [simp]: "current_total (apply_ctl a w) = current_total w"
  by (cases a) (simp_all add: cancel_def toggle_pause_def)

lemma current_total_apply_ctls [simp]: "current_total (apply_ctls cs w) = current_total w"
  unfolding apply_ctls_def by (induction cs arbitrary: w) simp_all

lemma current_total_pause_wait [simp]: "current_total (snd (pause_wait w ts)) = current_total w"
  by (induction w ts rule: pause_wait.induct) simp_all

lemma effective_total_pause_wait:
  "pause_wait (apply_ctls cs w) ts = (r, w1) \<Longrightarrow>
     effective_total w1 s = effective_total w s \<and> events w1 = events w"
  using current_total_pause_wait[of "apply_ctls cs w" ts] events_pause_wait[of "apply_ctls cs w" ts]
  by (simp add: effective_total_def)

lemma py_int_not_zero_division: "py_int y \<noteq> Inl ZeroDivisionError"
proof (cases y)
  case (IntV j)
  then show ?thesis by simp
next
  case (FloatV x)
  then show ?thesis by (cases x) simp_all
qed

lemma percent_not_zero_division: "t \<noteq> 0 \<Longrightarrow> percent t r \<noteq> Inl ZeroDivisionError"
  by (auto simp: percent_def py_truediv_def Let_def py_int_not_zero_division split: sum.splits)

text \<open>
  C10. A progress callback never raises \<open>ZeroDivisionError\<close>. When the effective total
  is false (unknown, or a known total of zero bytes) the callback emits nothing and
  leaves the worker as the pause and cancellation checks left it: it returns before
  the division by the total.
\<close>

theorem on_progress_zero_total:
  "fst (on_progress w s c) \<noteq> Raised ZeroDivisionError \<and>
   (\<not> truthy (effective_total w s) \<longrightarrow>
      events (snd (on_progress w s c)) = events w \<and>
      snd (on_progress w s c) = snd (pause_wait (apply_ctls (before c) w) (sleeps c)))"
proof -
  obtain r w1 where pw: "pause_wait (apply_ctls (before c) w) (sleeps c) = (r, w1)"
    by (cases "pause_wait (apply_ctls (before c) w) (sleeps c)")
  note same = effective_total_pause_wait[OF pw, of s]
  have raise: "r \<noteq> Raised ZeroDivisionError"
  proof -
    have "fst (pause_wait w' ts) \<noteq> Raised ZeroDivisionError" for w' ts
      by (induction w' ts rule: pause_wait.induct) (simp_all add: msg_cancel_paused_def)
    from this[of "apply_ctls (before c) w" "sleeps c"] pw show ?thesis by simp
  qed
  have "fst (on_progress w s c) \<noteq> Raised ZeroDivisionError"
    using pw raise same percent_not_zero_division
    by (auto simp: on_progress_def split: outcome.splits option.splits sum.splits)
  moreover have "snd (on_progress w s c) = w1" if "\<not> truthy (effective_total w s)"
    using pw same that
    by (auto simp: on_progress_def truthy_def split: outcome.splits option.splits)
  ultimately show ?thesis using pw same by simp
qed

theorem on_progress_zero_total_witness:
  "effective_total sample_worker ((variant True False ''mp4'' 720)\<lparr>filesize_approx := Some 0\<rparr>) = Some 0 \<and>
   on_progress sample_worker ((variant True False ''mp4'' 720)\<lparr>filesize_approx := Some 0\<rparr>)
       \<lparr>before = [], sleeps = [], bytes_remaining = 0\<rparr>
     = (Done, sample_worker)"
proof -
  let ?s = "(variant True False ''mp4'' 720)\<lparr>filesize_approx := Some 0\<rparr>"
  let ?c = "\<lparr>before = [], sleeps = [], bytes_remaining = 0\<rparr>"
  have t: "effective_total sample_worker ?s = Some 0"
    by (simp add: run_eval)
  then have nt: "\<not> truthy (effective_total sample_worker ?s)"
    by (simp add: truthy_def)
  have d: "fst (on_progress sample_worker ?s ?c) = Done"
    by (simp add: run_eval)
  from on_progress_zero_total[of sample_worker ?s ?c] nt
  have "snd (on_progress sample_worker ?s ?c) = sample_worker"
    by (simp add: apply_ctls_def)
  with d t show ?thesis
    by (metis prod.collapse)
qed

subsection \<open>The emitted percentage\<close>

text \<open>
  The integer tests of the model agree with the real value of a double, and rounding
  a positive ratio to a double changes it by at most the relative error \<open>ulp_half\<close>
  (plus \<open>ulp_half\<close> for results below the normal range).
\<close>

lemma pos_mult_pow2: "0 < m * (2::int) ^ k \<longleftrightarrow> 0 < m"
  by (simp add: zero_less_mult_iff)

lemma int_div_less:
  assumes "0 < (c::int)" and "a < b * c"
  shows "a div c < b"
proof -
  have "c * (a div c) \<le> a"
    using pos_mod_sign[OF assms(1), of a] mult_div_mod_eq[of c a] by linarith
  with assms(2) have "c * (a div c) < c * b" by (simp add: mult.commute)
  with assms(1) show ?thesis by (simp add: mult_less_cancel_left_pos)
qed

lemma py_int_clamp_range:
  "py_int (py_max 0 (py_min 100 x)) = Inr p \<Longrightarrow> 0 \<le> p \<and> p \<le> 100"
proof (cases x)
  case (Finite m e)
  assume a: "py_int (py_max 0 (py_min 100 x)) = Inr p"
  show ?thesis
  proof (cases "m * 2 ^ nat e < 100 * 2 ^ nat (- e)")
    case lt: True
    show ?thesis
    proof (cases "0 < m")
      case True
      with a Finite lt have p: "p = (m * 2 ^ nat e) div 2 ^ nat (- e)"
        by (simp add: py_min_def pos_mult_pow2)
      have "0 \<le> (m * 2 ^ nat e) div 2 ^ nat (- e)"
        using True by (simp add: pos_imp_zdiv_nonneg_iff)
      moreover have "(m * 2 ^ nat e) div 2 ^ nat (- e) < 100"
        using lt by (intro int_div_less) simp_all
      ultimately show ?thesis using p by simp
    next
      case False
      with a Finite lt show ?thesis
        by (simp add: py_min_def pos_mult_pow2)
    qed
  next
    case False
    with a Finite show ?thesis by (simp add: py_min_def)
  qed
next
  case PosInf
  assume "py_int (py_max 0 (py_min 100 x)) = Inr p"
  with PosInf show ?thesis by (simp add: py_min_def)
next
  case NegInf
  assume "py_int (py_max 0 (py_min 100 x)) = Inr p"
  with NegInf show ?thesis by (simp add: py_min_def)
qed

lemma percent_range: "percent t r = Inr p \<Longrightarrow> 0 \<le> p \<and> p \<le> 100"
  by (auto simp: percent_def split: sum.splits dest: py_int_clamp_range)

lemma powi_split: "(2::real) powi e = 2 ^ nat e / 2 ^ nat (- e)"
  by (cases "0 \<le> e") (simp_all add: power_int_def field_simps power_inverse)

lemma fval_ratio: "fval m e = of_int (m * 2 ^ nat e) / of_int (2 ^ nat (- e))"
  by (simp add: fval_def powi_split)

lemma float_less_int_fval: "float_less_int (Finite m e) k \<longleftrightarrow> fval m e < of_int k"
proof -
  have "fval m e < of_int k \<longleftrightarrow> (of_int (m * 2 ^ nat e) :: real) < of_int (k * 2 ^ nat (- e))"
    by (simp add: fval_ratio divide_less_eq)
  also have "\<dots> \<longleftrightarrow> m * 2 ^ nat e < k * 2 ^ nat (- e)"
    by (simp only: of_int_less_iff)
  finally show ?thesis by simp
qed

lemma int_less_float_fval: "int_less_float k (Finite m e) \<longleftrightarrow> of_int k < fval m e"
proof -
  have "of_int k < fval m e \<longleftrightarrow> (of_int (k * 2 ^ nat (- e)) :: real) < of_int (m * 2 ^ nat e)"
    by (simp add: fval_ratio less_divide_eq)
  also have "\<dots> \<longleftrightarrow> k * 2 ^ nat (- e) < m * 2 ^ nat e"
    by (simp only: of_int_less_iff)
  finally show ?thesis by simp
qed

lemma too_large_fval: "too_large (m, e) \<longleftrightarrow> 2 ^ 1024 \<le> fval m e"
proof -
  have "2 ^ 1024 \<le> fval m e \<longleftrightarrow> (of_int (2 ^ 1024 * 2 ^ nat (- e)) :: real) \<le> of_int (m * 2 ^ nat e)"
    by (simp add: fval_ratio le_divide_eq)
  also have "\<dots> \<longleftrightarrow> (2::int) ^ 1024 * 2 ^ nat (- e) \<le> m * 2 ^ nat e"
    by (simp only: of_int_le_iff)
  finally show ?thesis by (simp add: too_large_def)
qed

lemma floor_fval: "\<lfloor>fval m e\<rfloor> = (m * 2 ^ nat e) div 2 ^ nat (- e)"
  unfolding fval_ratio by (rule floor_divide_of_int_eq)

lemma round_half_even_error:
  assumes "0 < den"
  shows "\<bar>of_int (round_half_even num den) - (of_int num / of_int den :: real)\<bar> \<le> 1 / 2"
proof -
  define q where "q = num div den"
  define r where "r = num mod den"
  have num: "num = den * q + r" by (simp add: q_def r_def)
  have r: "0 \<le> r" "r < den" using assms by (simp_all add: r_def)
  have frac: "(of_int num / of_int den :: real) = of_int q + of_int r / of_int den"
    using assms by (simp add: num field_simps)
  have d: "(0::real) < of_int den" using assms by simp
  consider "2 * r < den" | "den < 2 * r" | "2 * r = den" by linarith
  then show ?thesis
  proof cases
    case 1
    then have "round_half_even num den = q" by (simp add: round_half_even_def q_def r_def)
    moreover have "(of_int r / of_int den :: real) \<le> 1 / 2"
      using 1 d by (simp add: field_simps)
    moreover have "(0::real) \<le> of_int r / of_int den" using r d by simp
    ultimately show ?thesis by (simp add: frac)
  next
    case 2
    then have "round_half_even num den = q + 1" by (simp add: round_half_even_def q_def r_def)
    moreover have "(1 / 2 :: real) \<le> of_int r / of_int den"
      using 2 d by (simp add: field_simps)
    moreover have "(of_int r / of_int den :: real) \<le> 1" using r d by simp
    ultimately show ?thesis by (simp add: frac)
  next
    case 3
    then have res: "round_half_even num den = q \<or> round_half_even num den = q + 1"
      by (simp add: round_half_even_def q_def r_def Let_def)
    have "(of_int r / of_int den :: real) = 1 / 2"
      using 3 d by (simp add: field_simps)
    with frac have e: "(of_int num / of_int den :: real) = of_int q + 1 / 2" by simp
    from res show ?thesis
    proof
      assume "round_half_even num den = q"
      then show ?thesis unfolding e by simp
    next
      assume "round_half_even num den = q + 1"
      then show ?thesis unfolding e by simp
    qed
  qed
qed

lemma round_half_even_nonneg: "0 < den \<Longrightarrow> 0 \<le> num \<Longrightarrow> 0 \<le> round_half_even num den"
  by (simp add: round_half_even_def Let_def pos_imp_zdiv_nonneg_iff)

lemma bit_length_nonneg: "0 \<le> bit_length n"
proof (induction n rule: bit_length.induct)
  case (1 n)
  then show ?case by (cases "n \<le> 0") (simp_all add: bit_length.simps[of n])
qed

lemma bit_length_bounds:
  "0 < n \<Longrightarrow> 2 ^ nat (bit_length n - 1) \<le> n \<and> n < 2 ^ nat (bit_length n)"
proof (induction n rule: bit_length.induct)
  case (1 n)
  show ?case
  proof (cases "n div 2 = 0")
    case True
    with 1(2) have n1: "n = 1" by (auto simp: zdiv_eq_0_iff)
    have "bit_length 1 = 1"
      by (simp add: bit_length.simps[of 1] bit_length.simps[of 0])
    with n1 show ?thesis by simp
  next
    case False
    with 1(2) have pos: "0 < n div 2"
      by (simp add: pos_imp_zdiv_pos_iff zdiv_eq_0_iff)
    from 1(1)[OF _ pos] 1(2)
    have ih: "2 ^ nat (bit_length (n div 2) - 1) \<le> n div 2" "n div 2 < 2 ^ nat (bit_length (n div 2))"
      by simp_all
    have bl: "bit_length n = 1 + bit_length (n div 2)"
      using 1(2) by (simp add: bit_length.simps[of n])
    have ge1: "1 \<le> bit_length (n div 2)"
      using pos bit_length_nonneg[of "n div 2 div 2"] by (simp add: bit_length.simps[of "n div 2"])
    have "nat (bit_length n - 1) = Suc (nat (bit_length (n div 2) - 1))"
      using bl ge1 by simp
    then have "(2::int) ^ nat (bit_length n - 1) = 2 * 2 ^ nat (bit_length (n div 2) - 1)" by simp
    also have "\<dots> \<le> 2 * (n div 2)" using ih(1) by simp
    also have "\<dots> \<le> n" by simp
    finally have lo: "2 ^ nat (bit_length n - 1) \<le> n" .
    have "nat (bit_length n) = Suc (nat (bit_length (n div 2)))"
      using bl bit_length_nonneg[of "n div 2"] by simp
    then have "(2::int) ^ nat (bit_length n) = 2 * 2 ^ nat (bit_length (n div 2))" by simp
    moreover have "n < 2 * (n div 2 + 1)" by presburger
    moreover have "2 * (n div 2 + 1) \<le> 2 * 2 ^ nat (bit_length (n div 2))" using ih(2) by simp
    ultimately have "n < 2 ^ nat (bit_length n)" by linarith
    with lo show ?thesis by simp
  qed
qed

lemma bit_length_bounds_real:
  assumes "0 < n"
  shows "(2::real) powi (bit_length n - 1) \<le> of_int n" and "of_int n < (2::real) powi (bit_length n)"
proof -
  from assms have pos: "1 \<le> bit_length n"
    using bit_length_nonneg[of "n div 2"] by (simp add: bit_length.simps[of n])
  have "(2::real) powi (bit_length n - 1) = 2 ^ nat (bit_length n - 1)"
    using pos by (simp add: power_int_def)
  also have "\<dots> = of_int (2 ^ nat (bit_length n - 1))" by simp
  also have "\<dots> \<le> of_int n" using bit_length_bounds[OF assms] by (simp only: of_int_le_iff)
  finally show "(2::real) powi (bit_length n - 1) \<le> of_int n" .
  have "(of_int n :: real) < of_int (2 ^ nat (bit_length n))"
    using bit_length_bounds[OF assms] by (simp only: of_int_less_iff)
  also have "\<dots> = 2 powi (bit_length n)" using pos by (simp add: power_int_def)
  finally show "of_int n < (2::real) powi (bit_length n)" .
qed

lemma floor_log2_lower:
  assumes "0 < n" and "0 < b"
  shows "(2::real) powi (floor_log2 n b) \<le> of_int n / of_int b"
proof -
  define d where "d = bit_length n - bit_length b"
  have bpos: "(0::real) < of_int b" using assms by simp
  show ?thesis
  proof (cases "b * 2 ^ nat d \<le> n * 2 ^ nat (- d)")
    case True
    then have fl: "floor_log2 n b = d" by (simp add: floor_log2_def d_def)
    from True have "(of_int (b * 2 ^ nat d) :: real) \<le> of_int (n * 2 ^ nat (- d))"
      by (simp only: of_int_le_iff)
    then have "(of_int b :: real) * (2 ^ nat d / 2 ^ nat (- d)) \<le> of_int n"
      by (simp add: field_simps)
    then have "(of_int b :: real) * 2 powi d \<le> of_int n" by (simp add: powi_split)
    with bpos show ?thesis by (simp add: fl field_simps)
  next
    case False
    then have fl: "floor_log2 n b = d - 1" by (simp add: floor_log2_def d_def)
    have "(2::real) powi (d - 1) = 2 powi (bit_length n - 1) / 2 powi (bit_length b)"
      by (simp add: d_def power_int_diff)
    also have "\<dots> \<le> of_int n / 2 powi (bit_length b)"
      using bit_length_bounds_real(1)[OF assms(1)] by (simp add: divide_right_mono)
    also have "\<dots> \<le> of_int n / of_int b"
      using bit_length_bounds_real(2)[OF assms(2)] assms bpos
      by (intro divide_left_mono) simp_all
    finally show ?thesis by (simp add: fl)
  qed
qed

lemma round_ratio_error:
  assumes "0 < n" and "0 < b"
  shows "0 \<le> fst (round_ratio n b)"
    and "\<bar>fval (fst (round_ratio n b)) (snd (round_ratio n b)) - of_int n / of_int b\<bar>
           \<le> (of_int n / of_int b) * ulp_half + ulp_half"
proof -
  define e where "e = max (floor_log2 n b) (- 1022)"
  define sh where "sh = e - 52"
  define num where "num = n * 2 ^ nat (- sh)"
  define den where "den = b * 2 ^ nat sh"
  define m where "m = round_half_even num den"
  have rr: "round_ratio n b = (m, sh)"
    by (simp add: round_ratio_def Let_def e_def sh_def num_def den_def m_def)
  have den: "0 < den" using assms by (simp add: den_def)
  have num: "0 \<le> num" using assms by (simp add: num_def)
  show "0 \<le> fst (round_ratio n b)"
    using round_half_even_nonneg[OF den num] by (simp add: rr m_def)
  define x :: real where "x = of_int n / of_int b"
  have xpos: "0 < x" using assms by (simp add: x_def)
  have S: "(0::real) < 2 powi sh" by simp
  have scaled: "(of_int num / of_int den :: real) = x / 2 powi sh"
    by (simp add: num_def den_def x_def powi_split)
  have "\<bar>of_int m - x / 2 powi sh\<bar> \<le> 1 / 2"
    using round_half_even_error[OF den, of num] by (simp add: m_def scaled)
  then have "\<bar>of_int m - x / 2 powi sh\<bar> * 2 powi sh \<le> 1 / 2 * 2 powi sh"
    using S by (intro mult_right_mono) simp_all
  moreover have "\<bar>of_int m - x / 2 powi sh\<bar> * 2 powi sh = \<bar>fval m sh - x\<bar>"
  proof -
    have "\<bar>of_int m - x / 2 powi sh\<bar> * 2 powi sh = \<bar>(of_int m - x / 2 powi sh) * 2 powi sh\<bar>"
      using S by (simp add: abs_mult)
    also have "(of_int m - x / 2 powi sh) * 2 powi sh = fval m sh - x"
      using S by (simp add: fval_def field_simps)
    finally show ?thesis .
  qed
  ultimately have err: "\<bar>fval m sh - x\<bar> \<le> 2 powi sh / 2" by simp
  have half: "(2::real) powi sh / 2 = 2 powi e * ulp_half"
    by (simp add: sh_def ulp_half_def power_int_diff)
  have "(2::real) powi e * ulp_half \<le> x * ulp_half + ulp_half"
  proof (cases "- 1022 \<le> floor_log2 n b")
    case True
    then have "e = floor_log2 n b" by (simp add: e_def)
    then have "(2::real) powi e \<le> x" using floor_log2_lower[OF assms] by (simp add: x_def)
    then have "(2::real) powi e * ulp_half \<le> x * ulp_half"
      by (intro mult_right_mono) (simp_all add: ulp_half_def)
    then show ?thesis by (simp add: ulp_half_def)
  next
    case False
    then have "e = - 1022" by (simp add: e_def)
    moreover have "((1::real) / 2) ^ 1022 \<le> 1" by (rule power_le_one) simp_all
    ultimately have "(2::real) powi e \<le> 1" by (simp add: power_int_def inverse_eq_divide)
    then have "(2::real) powi e * ulp_half \<le> 1 * ulp_half"
      by (intro mult_right_mono) (simp_all add: ulp_half_def)
    moreover have "0 \<le> x * ulp_half" using xpos by (simp add: ulp_half_def)
    ultimately show ?thesis by simp
  qed
  with err half show "\<bar>fval (fst (round_ratio n b)) (snd (round_ratio n b)) - of_int n / of_int b\<bar>
           \<le> (of_int n / of_int b) * ulp_half + ulp_half"
    by (simp add: rr x_def)
qed

lemma ulp_half_small: "0 < ulp_half" "ulp_half \<le> 1 / 1000"
  by (simp_all add: ulp_half_def)

lemma product_close:
  fixes v Q P u :: real
  assumes "0 < v" "v < 1" "0 < u" "u \<le> 1 / 1000" "0 \<le> Q"
    and "\<bar>Q - v\<bar> \<le> v * u + u" and "\<bar>P - 100 * Q\<bar> \<le> 100 * Q * u + u"
  shows "\<bar>P - 100 * v\<bar> < 1"
proof -
  have vu: "v * u \<le> u" using assms(1-3) by (simp add: mult_left_le_one_le)
  with assms(6) have Q2: "Q \<le> 2" using assms(2,4) by linarith
  then have "Q * u \<le> 2 * u" using assms(3) by (intro mult_right_mono) simp_all
  with assms(7) have "\<bar>P - 100 * Q\<bar> \<le> 201 * u" by simp
  moreover from assms(6) vu have "\<bar>Q - v\<bar> \<le> 2 * u" by linarith
  ultimately have "\<bar>P - 100 * v\<bar> \<le> 401 * u" by linarith
  with assms(4) show ?thesis by linarith
qed

lemma product_large:
  fixes v Q P u :: real
  assumes "1 \<le> v" "0 < u" "u \<le> 1 / 1000"
    and "\<bar>Q - v\<bar> \<le> v * u + u" and "\<bar>P - 100 * Q\<bar> \<le> 100 * Q * u + u"
  shows "99 \<le> P"
proof -
  define a where "a = v * (1 - u)"
  define b where "b = Q * (1 - u)"
  have "1 * (1 - u) \<le> a" unfolding a_def using assms(1,3) by (intro mult_right_mono) simp_all
  then have a: "1 - u \<le> a" by simp
  have "Q - v \<ge> - (v * u + u)" using assms(4) by linarith
  then have "a - u \<le> Q" by (simp add: a_def algebra_simps)
  with a have Q: "998 / 1000 \<le> Q" using assms(3) by linarith
  have "998 / 1000 * (999 / 1000) \<le> b"
    unfolding b_def using Q assms(3) by (intro mult_mono) simp_all
  moreover have "P - 100 * Q \<ge> - (100 * Q * u + u)" using assms(5) by linarith
  then have "100 * b - u \<le> P" by (simp add: b_def algebra_simps)
  ultimately show ?thesis using assms(3) by linarith
qed

lemma floor_close:
  fixes P X :: real
  assumes "\<bar>P - X\<bar> < 1"
  shows "\<bar>\<lfloor>P\<rfloor> - \<lfloor>X\<rfloor>\<bar> \<le> 1"
proof -
  have "of_int \<lfloor>P\<rfloor> \<le> P" "P < of_int \<lfloor>P\<rfloor> + 1" "of_int \<lfloor>X\<rfloor> \<le> X" "X < of_int \<lfloor>X\<rfloor> + 1"
    by linarith+
  with assms have "(of_int \<lfloor>P\<rfloor> :: real) < of_int \<lfloor>X\<rfloor> + 2" "(of_int \<lfloor>X\<rfloor> :: real) < of_int \<lfloor>P\<rfloor> + 2"
    by linarith+
  then have "\<lfloor>P\<rfloor> < \<lfloor>X\<rfloor> + 2" "\<lfloor>X\<rfloor> < \<lfloor>P\<rfloor> + 2"
    by linarith+
  then show ?thesis by linarith
qed

lemma clamp_close:
  fixes a b :: int
  shows "\<bar>a - b\<bar> \<le> 1 \<Longrightarrow> \<bar>max 0 (min 100 a) - max 0 (min 100 b)\<bar> \<le> 1"
  by linarith

lemma clamp_Finite:
  "py_int (py_max 0 (py_min 100 (Finite m e))) = Inr (max 0 (min 100 \<lfloor>fval m e\<rfloor>))"
proof -
  consider "fval m e \<le> 0" | "0 < fval m e" "fval m e < 100" | "100 \<le> fval m e" by linarith
  then show ?thesis
  proof cases
    case 1
    then have "\<not> int_less_float 0 (Finite m e)" "float_less_int (Finite m e) 100"
      by (simp_all add: int_less_float_fval float_less_int_fval
          del: int_less_float.simps float_less_int.simps)
    moreover from 1 have "\<lfloor>fval m e\<rfloor> \<le> 0" by (simp add: floor_le_zero)
    ultimately show ?thesis by (simp add: py_min_def del: float_less_int.simps int_less_float.simps)
  next
    case 2
    then have t: "int_less_float 0 (Finite m e)" "float_less_int (Finite m e) 100"
      by (simp_all add: int_less_float_fval float_less_int_fval
          del: int_less_float.simps float_less_int.simps)
    have "(0::real) < 2 powi e" by simp
    moreover from 2(1) have "(0::real) < of_int m * 2 powi e" by (simp add: fval_def)
    ultimately have "(0::real) < of_int m" by (rule zero_less_mult_pos2[rotated])
    then have "0 < m" by simp
    then have "py_int (FloatV (Finite m e)) = Inr \<lfloor>fval m e\<rfloor>" by (simp add: floor_fval)
    moreover from 2 have "0 \<le> \<lfloor>fval m e\<rfloor>" "\<lfloor>fval m e\<rfloor> < 100" by (simp_all add: floor_less_iff)
    ultimately show ?thesis using t
      by (simp add: py_min_def del: float_less_int.simps int_less_float.simps py_int.simps)
  next
    case 3
    then have "\<not> float_less_int (Finite m e) 100"
      by (simp add: float_less_int_fval del: float_less_int.simps)
    moreover from 3 have "100 \<le> \<lfloor>fval m e\<rfloor>" by (simp add: le_floor_iff)
    ultimately show ?thesis by (simp add: py_min_def del: float_less_int.simps)
  qed
qed

lemma fval_zero [simp]: "fval 0 e = 0"
  by (simp add: fval_def)

lemma clamp_zero: "py_int (py_max 0 (py_min 100 (Finite 0 0))) = Inr 0"
  by (simp add: clamp_Finite del: py_int.simps py_max.simps)

lemma times_hundred_pos:
  assumes "0 < m"
  shows "times_hundred (Finite m e) =
           (let p = round_ratio (m * 100 * 2 ^ nat e) (2 ^ nat (- e))
            in if too_large p then PosInf else Finite (fst p) (snd p))"
  using assms by (simp add: Let_def)

lemma percent_same_sign:
  assumes "0 < n" and "0 < b"
    and "py_int (py_max 0 (py_min 100
            (times_hundred (Finite (fst (round_ratio n b)) (snd (round_ratio n b)))))) = Inr p"
  shows "\<bar>p - max 0 (min 100 \<lfloor>100 * (of_int n / of_int b :: real)\<rfloor>)\<bar> \<le> 1"
proof -
  define v :: real where "v = of_int n / of_int b"
  define m1 where "m1 = fst (round_ratio n b)"
  define e1 where "e1 = snd (round_ratio n b)"
  define Q where "Q = fval m1 e1"
  note u = ulp_half_small
  have vpos: "0 < v" using assms(1,2) by (simp add: v_def)
  have m1: "0 \<le> m1" using round_ratio_error(1)[OF assms(1,2)] by (simp add: m1_def)
  have Qv: "\<bar>Q - v\<bar> \<le> v * ulp_half + ulp_half"
    using round_ratio_error(2)[OF assms(1,2)] by (simp add: Q_def m1_def e1_def v_def)
  have Qnn: "0 \<le> Q" using m1 by (simp add: Q_def fval_def)
  show ?thesis
  proof (cases "m1 = 0")
    case True
    with assms(3) have p: "p = 0"
      by (simp add: m1_def[symmetric] e1_def[symmetric] clamp_Finite
          del: py_int.simps py_max.simps)
    from True have "Q = 0" by (simp add: Q_def)
    with Qv have "v \<le> v * ulp_half + ulp_half" by simp
    moreover have "v * ulp_half \<le> v * (1 / 1000)"
      using vpos u(2) by (intro mult_left_mono) simp_all
    ultimately have "v \<le> 2 / 1000" using u(2) by linarith
    then have "\<lfloor>100 * v\<rfloor> \<le> 0" using vpos by (simp add: floor_le_zero)
    with p show ?thesis by (simp add: v_def[symmetric])
  next
    case False
    with m1 have m1pos: "0 < m1" by simp
    define n' where "n' = m1 * 100 * 2 ^ nat e1"
    define b' :: int where "b' = 2 ^ nat (- e1)"
    define m2 where "m2 = fst (round_ratio n' b')"
    define e2 where "e2 = snd (round_ratio n' b')"
    define P where "P = fval m2 e2"
    have n'b': "0 < n'" "0 < b'" using m1pos by (simp_all add: n'_def b'_def)
    have ratio: "(of_int n' / of_int b' :: real) = 100 * Q"
      by (simp add: n'_def b'_def Q_def fval_ratio)
    have PQ: "\<bar>P - 100 * Q\<bar> \<le> 100 * Q * ulp_half + ulp_half"
      using round_ratio_error(2)[OF n'b'] by (simp add: P_def m2_def e2_def ratio)
    have th: "times_hundred (Finite m1 e1) = (if too_large (m2, e2) then PosInf else Finite m2 e2)"
      using m1pos by (simp add: times_hundred_pos Let_def n'_def b'_def m2_def e2_def)
    show ?thesis
    proof (cases "v < 1")
      case True
      have close: "\<bar>P - 100 * v\<bar> < 1"
        using vpos True u Qnn Qv PQ by (rule product_close)
      then have "P < 1024" using True by linarith
      moreover have "(1024::real) \<le> 2 ^ 1024"
        using power_increasing[of 10 1024 "2::real"] by simp
      ultimately have "\<not> too_large (m2, e2)" by (simp add: too_large_fval P_def)
      with th assms(3) have "p = max 0 (min 100 \<lfloor>P\<rfloor>)"
        by (simp add: m1_def[symmetric] e1_def[symmetric] clamp_Finite P_def
            del: py_int.simps py_max.simps)
      moreover have "\<bar>\<lfloor>P\<rfloor> - \<lfloor>100 * v\<rfloor>\<bar> \<le> 1" using close by (rule floor_close)
      ultimately show ?thesis using clamp_close by (simp add: v_def[symmetric])
    next
      case False
      then have v1: "1 \<le> v" by simp
      then have "100 \<le> \<lfloor>100 * v\<rfloor>" by (simp add: le_floor_iff)
      then have spec: "max 0 (min 100 \<lfloor>100 * v\<rfloor>) = 100" by simp
      have "99 \<le> p \<and> p \<le> 100"
      proof (cases "too_large (m2, e2)")
        case True
        with th assms(3) show ?thesis
          by (simp add: m1_def[symmetric] e1_def[symmetric] py_min_def)
      next
        case False
        with th assms(3) have p: "p = max 0 (min 100 \<lfloor>P\<rfloor>)"
          by (simp add: m1_def[symmetric] e1_def[symmetric] clamp_Finite P_def
              del: py_int.simps py_max.simps)
        have "99 \<le> P" using v1 u Qv PQ by (rule product_large)
        then have "99 \<le> \<lfloor>P\<rfloor>" by (simp add: le_floor_iff)
        with p show ?thesis by simp
      qed
      with spec show ?thesis by (simp add: v_def[symmetric])
    qed
  qed
qed

lemma percent_opposite_sign:
  assumes "0 \<le> m"
  shows "py_int (py_max 0 (py_min 100 (times_hundred (Finite (- m) e)))) = Inr 0"
proof (cases "m = 0")
  case True
  then show ?thesis by (simp add: clamp_zero del: py_int.simps py_max.simps)
next
  case False
  with assms have mpos: "0 < m" by simp
  define p where "p = round_ratio (m * 100 * 2 ^ nat e) (2 ^ nat (- e))"
  have nn: "0 \<le> fst p"
    unfolding p_def using mpos by (intro round_ratio_error(1)) simp_all
  have th: "times_hundred (Finite (- m) e) = (if too_large p then NegInf else Finite (- fst p) (snd p))"
    using mpos by (simp add: Let_def p_def)
  show ?thesis
  proof (cases "too_large p")
    case True
    with th show ?thesis by (simp add: py_min_def)
  next
    case False
    have "fval (- fst p) (snd p) \<le> 0"
      using nn by (simp add: fval_def mult_le_0_iff)
    then have "\<lfloor>fval (- fst p) (snd p)\<rfloor> \<le> 0" by (simp add: floor_le_zero)
    with False th show ?thesis
      by (simp add: clamp_Finite del: py_int.simps py_max.simps)
  qed
qed

lemma floor_div_int: "(a::int) div b = \<lfloor>(of_int a / of_int b :: real)\<rfloor>"
  by (simp add: floor_divide_of_int_eq)

lemma percent_accuracy:
  assumes "t \<noteq> 0" and "percent t r = Inr p"
  shows "\<bar>p - spec_percent t r\<bar> \<le> 1"
proof -
  define d where "d = t - r"
  consider "d = 0" | "d \<noteq> 0" "sgn d * sgn t = 1" | "d \<noteq> 0" "sgn d * sgn t = - 1"
    using assms(1) by (cases "0 < d"; cases "0 < t") (auto simp: sgn_if)
  then show ?thesis
  proof cases
    case 1
    with assms have "p = 0"
      by (simp add: percent_def py_truediv_def d_def clamp_zero del: py_int.simps py_max.simps)
    moreover from 1 have "spec_percent t r = 0" by (simp add: spec_percent_def d_def)
    ultimately show ?thesis by simp
  next
    case 2
    define n where "n = \<bar>d\<bar>"
    define b where "b = \<bar>t\<bar>"
    have pos: "0 < n" "0 < b" using 2(1) assms(1) by (simp_all add: n_def b_def)
    from assms 2 have "py_int (py_max 0 (py_min 100
            (times_hundred (Finite (fst (round_ratio n b)) (snd (round_ratio n b)))))) = Inr p"
      by (auto simp: percent_def py_truediv_def d_def[symmetric] n_def b_def Let_def
          split: if_splits simp del: py_int.simps py_max.simps times_hundred.simps)
    from percent_same_sign[OF pos this]
    have "\<bar>p - max 0 (min 100 \<lfloor>100 * (of_int n / of_int b :: real)\<rfloor>)\<bar> \<le> 1" .
    moreover have "(of_int n / of_int b :: real) = of_int d / of_int t"
      using 2 assms(1) by (auto simp: n_def b_def sgn_if split: if_splits)
    moreover have "(100 * d) div t = \<lfloor>100 * (of_int d / of_int t :: real)\<rfloor>"
      by (simp add: floor_div_int)
    ultimately show ?thesis by (simp add: spec_percent_def d_def)
  next
    case 3
    define n where "n = \<bar>d\<bar>"
    define b where "b = \<bar>t\<bar>"
    have pos: "0 < n" "0 < b" using 3(1) assms(1) by (simp_all add: n_def b_def)
    have nn: "0 \<le> fst (round_ratio n b)" using pos by (rule round_ratio_error(1))
    from assms 3 have "py_int (py_max 0 (py_min 100
            (times_hundred (Finite (- fst (round_ratio n b)) (snd (round_ratio n b)))))) = Inr p"
      by (auto simp: percent_def py_truediv_def d_def[symmetric] n_def b_def Let_def
          split: if_splits simp del: py_int.simps py_max.simps times_hundred.simps)
    with percent_opposite_sign[OF nn] have p: "p = 0" by simp
    have "(of_int d / of_int t :: real) < 0"
      using 3 assms(1) by (auto simp: sgn_if divide_less_0_iff split: if_splits)
    then have "\<lfloor>100 * (of_int d / of_int t :: real)\<rfloor> < 0" by (simp add: floor_less_iff)
    moreover have "(100 * d) div t = \<lfloor>100 * (of_int d / of_int t :: real)\<rfloor>"
      by (simp add: floor_div_int)
    ultimately have "spec_percent t r = 0" by (simp add: spec_percent_def d_def)
    with p show ?thesis by simp
  qed
qed

text \<open>
  Without a \<open>cancel\<close> call a list of control calls only toggles the pause flag, and a
  pause that is resumed lets the pause loop return with the flag clear. Within the
  range of doubles the percentage is defined, so a callback that passes its pause and
  cancellation checks with a total that is known and not zero emits its percentage.
\<close>

lemma apply_ctls_no_cancel:
  "Cancel \<notin> set cs \<Longrightarrow> apply_ctls cs w = w\<lparr>pause_event := toggles (pause_event w) cs\<rparr>"
proof (induction cs arbitrary: w)
  case Nil
  show ?case by (simp add: apply_ctls_def)
next
  case (Cons a cs)
  then have a: "a = TogglePause" by (cases a) simp_all
  from Cons have "apply_ctls cs (toggle_pause w)
      = (toggle_pause w)\<lparr>pause_event := toggles (pause_event (toggle_pause w)) cs\<rparr>"
    by simp
  then show ?case
    by (simp add: a apply_ctls_def toggle_pause_def)
qed

lemma pause_wait_wakes:
  assumes "\<not> cancel_event w" and "\<forall>t \<in> set ts. Cancel \<notin> set t" and "wakes (pause_event w) ts"
  shows "pause_wait w ts = (Done, w\<lparr>pause_event := False\<rparr>)"
  using assms
proof (induction ts arbitrary: w)
  case Nil
  then show ?case by simp
next
  case (Cons t ts)
  show ?case
  proof (cases "pause_event w")
    case False
    then show ?thesis by simp
  next
    case True
    from Cons.prems(2) have nc: "Cancel \<notin> set t" by simp
    define w1 where "w1 = apply_ctls t w"
    have w1: "w1 = w\<lparr>pause_event := toggles (pause_event w) t\<rparr>"
      unfolding w1_def using nc by (rule apply_ctls_no_cancel)
    have "pause_wait w1 ts = (Done, w1\<lparr>pause_event := False\<rparr>)"
    proof (rule Cons.IH)
      show "\<not> cancel_event w1" using Cons.prems(1) by (simp add: w1)
      show "\<forall>t \<in> set ts. Cancel \<notin> set t" using Cons.prems(2) by simp
      show "wakes (pause_event w1) ts" using Cons.prems(3) True by (simp add: w1)
    qed
    with True Cons.prems(1) show ?thesis by (simp add: w1_def[symmetric]) (simp add: w1)
  qed
qed

lemma clamp_defined: "\<exists>p. py_int (py_max 0 (py_min 100 x)) = Inr p"
proof (cases x)
  case (Finite m e)
  then show ?thesis by (simp add: clamp_Finite del: py_int.simps py_max.simps)
next
  case PosInf
  then show ?thesis by (simp add: py_min_def)
next
  case NegInf
  then show ?thesis by (simp add: py_min_def)
qed

lemma round_ratio_in_range:
  assumes "0 < n" and "0 < b" and "n < 2 ^ 1023 * b"
  shows "\<not> too_large (round_ratio n b)"
proof -
  define v :: real where "v = of_int n / of_int b"
  define B :: real where "B = 2 ^ 1023"
  define F where "F = fval (fst (round_ratio n b)) (snd (round_ratio n b))"
  note u = ulp_half_small
  have B1: "1 \<le> B" unfolding B_def by (rule one_le_power) simp
  have "(of_int n :: real) < of_int (2 ^ 1023 * b)" using assms(3) by (simp only: of_int_less_iff)
  then have vB: "v < B" using assms(2) by (simp add: v_def B_def field_simps)
  have vpos: "0 < v" using assms(1,2) by (simp add: v_def)
  have "\<bar>F - v\<bar> \<le> v * ulp_half + ulp_half"
    using round_ratio_error(2)[OF assms(1,2)] by (simp add: F_def v_def)
  moreover have "v * ulp_half \<le> B * ulp_half"
    using vB u(1) by (intro mult_right_mono) simp_all
  moreover have "B * ulp_half \<le> B * (1 / 1000)"
    using B1 u(2) by (intro mult_left_mono) simp_all
  ultimately have "F < 2 * B" using vB B1 u(2) by linarith
  moreover have "2 * B = 2 ^ 1024" by (simp add: B_def)
  ultimately have "\<not> 2 ^ 1024 \<le> F" by simp
  then show ?thesis
    using too_large_fval[of "fst (round_ratio n b)" "snd (round_ratio n b)"] by (simp add: F_def)
qed

lemma percent_defined:
  assumes "t \<noteq> 0" and "in_double_range t r"
  shows "\<exists>p. percent t r = Inr p"
proof (cases "t - r = 0")
  case True
  with assms(1) show ?thesis
    using clamp_defined[of "times_hundred (Finite 0 0)"]
    by (simp add: percent_def py_truediv_def del: py_int.simps py_max.simps times_hundred.simps)
next
  case False
  have "\<not> too_large (round_ratio \<bar>t - r\<bar> \<bar>t\<bar>)"
    using False assms by (intro round_ratio_in_range) (simp_all add: in_double_range_def)
  with False assms(1) show ?thesis
    using clamp_defined
    by (simp add: percent_def py_truediv_def Let_def
        del: py_int.simps py_max.simps times_hundred.simps)
qed

lemma on_progress_emits:
  assumes "pause_wait (apply_ctls (before c) w) (sleeps c) = (Done, w1)"
    and "\<not> cancel_event w1"
    and "effective_total w s = Some t" and "t \<noteq> 0"
    and "in_double_range t (bytes_remaining c)"
  shows "\<exists>p. percent t (bytes_remaining c) = Inr p \<and>
             on_progress w s c = (Done, emit (Progress p) w1)"
proof -
  from effective_total_pause_wait[OF assms(1), of s] assms(3)
  have "effective_total w1 s = Some t" by simp
  moreover from percent_defined[OF assms(4,5)] obtain p where "percent t (bytes_remaining c) = Inr p" ..
  ultimately show ?thesis
    using assms(1,2,4) by (simp add: on_progress_def)
qed

lemma on_progress_calm:
  assumes "\<not> cancel_event w" and "calm c"
    and "wakes (toggles (pause_event w) (before c)) (sleeps c)"
  shows "pause_wait (apply_ctls (before c) w) (sleeps c) = (Done, w\<lparr>pause_event := False\<rparr>)"
proof -
  define w0 where "w0 = apply_ctls (before c) w"
  have w0: "w0 = w\<lparr>pause_event := toggles (pause_event w) (before c)\<rparr>"
    unfolding w0_def using assms(2) by (intro apply_ctls_no_cancel) (simp add: calm_def)
  have "pause_wait w0 (sleeps c) = (Done, w0\<lparr>pause_event := False\<rparr>)"
  proof (rule pause_wait_wakes)
    show "\<not> cancel_event w0" using assms(1) by (simp add: w0)
    show "\<forall>t \<in> set (sleeps c). Cancel \<notin> set t" using assms(2) by (simp add: calm_def)
    show "wakes (pause_event w0) (sleeps c)" using assms(3) by (simp add: w0)
  qed
  then show ?thesis by (simp add: w0_def[symmetric]) (simp add: w0)
qed

text \<open>
  C4, as the code has it. A progress callback emits nothing when the effective total
  is unknown (or zero). Otherwise, when it passes its pause and cancellation checks
  (it is not cancelled and a pause is resumed) and the quotient is within the range of
  doubles, it emits exactly one \<open>progress\<close> signal, whose value is
  \<open>int(max(0, min(100, (done / total) * 100)))\<close> computed in double precision: it lies
  within \<open>[0, 100]\<close> and differs by at most one from \<open>floor(100 * done / total)\<close>
  clamped to \<open>[0, 100]\<close>. This is stated for the checks as the code makes them, and
  for control calls that are seen to pass them (no \<open>cancel\<close> call, the pause
  resumed). In every case a callback emits nothing or one such value.
\<close>

theorem on_progress_percent:
  "(\<not> truthy (effective_total w s) \<longrightarrow> events (snd (on_progress w s c)) = events w) \<and>
   (\<forall>t. fst (pause_wait (apply_ctls (before c) w) (sleeps c)) = Done \<and>
        \<not> cancel_event (snd (pause_wait (apply_ctls (before c) w) (sleeps c))) \<and>
        effective_total w s = Some t \<and> t \<noteq> 0 \<and> in_double_range t (bytes_remaining c) \<longrightarrow>
        (\<exists>p. on_progress w s c
               = (Done, emit (Progress p) (snd (pause_wait (apply_ctls (before c) w) (sleeps c)))) \<and>
             events (snd (on_progress w s c)) = events w @ [Progress p] \<and>
             percent t (bytes_remaining c) = Inr p \<and>
             0 \<le> p \<and> p \<le> 100 \<and> \<bar>p - spec_percent t (bytes_remaining c)\<bar> \<le> 1)) \<and>
   (\<forall>t. \<not> cancel_event w \<and> calm c \<and> wakes (toggles (pause_event w) (before c)) (sleeps c) \<and>
        effective_total w s = Some t \<and> t \<noteq> 0 \<and> in_double_range t (bytes_remaining c) \<longrightarrow>
        (\<exists>p. fst (on_progress w s c) = Done \<and>
             events (snd (on_progress w s c)) = events w @ [Progress p] \<and>
             percent t (bytes_remaining c) = Inr p \<and>
             0 \<le> p \<and> p \<le> 100 \<and> \<bar>p - spec_percent t (bytes_remaining c)\<bar> \<le> 1)) \<and>
   (events (snd (on_progress w s c)) = events w \<or>
    (\<exists>t p. effective_total w s = Some t \<and> t \<noteq> 0 \<and>
           percent t (bytes_remaining c) = Inr p \<and>
           events (snd (on_progress w s c)) = events w @ [Progress p] \<and>
           0 \<le> p \<and> p \<le> 100 \<and> \<bar>p - spec_percent t (bytes_remaining c)\<bar> \<le> 1))"
proof (intro conjI allI impI)
  obtain r w1 where pw: "pause_wait (apply_ctls (before c) w) (sleeps c) = (r, w1)"
    by (cases "pause_wait (apply_ctls (before c) w) (sleeps c)")
  note same = effective_total_pause_wait[OF pw, of s]
  show "events (snd (on_progress w s c)) = events w" if "\<not> truthy (effective_total w s)"
    using pw same that
    by (auto simp: on_progress_def truthy_def split: outcome.splits option.splits)
  have passed: "\<exists>p. on_progress w s c = (Done, emit (Progress p) w1) \<and>
             events (snd (on_progress w s c)) = events w @ [Progress p] \<and>
             percent t (bytes_remaining c) = Inr p \<and>
             0 \<le> p \<and> p \<le> 100 \<and> \<bar>p - spec_percent t (bytes_remaining c)\<bar> \<le> 1"
    if "r = Done" "\<not> cancel_event w1" "effective_total w s = Some t" "t \<noteq> 0"
      "in_double_range t (bytes_remaining c)" for t
  proof -
    from pw that(1) have pw': "pause_wait (apply_ctls (before c) w) (sleeps c) = (Done, w1)" by simp
    from on_progress_emits[OF pw' that(2-5)] obtain p where
      p: "percent t (bytes_remaining c) = Inr p" "on_progress w s c = (Done, emit (Progress p) w1)"
      by blast
    from p(2) same have "events (snd (on_progress w s c)) = events w @ [Progress p]"
      by (simp add: emit_def)
    with p percent_range[OF p(1)] percent_accuracy[OF that(4) p(1)] show ?thesis by blast
  qed
  show "\<exists>p. on_progress w s c
               = (Done, emit (Progress p) (snd (pause_wait (apply_ctls (before c) w) (sleeps c)))) \<and>
             events (snd (on_progress w s c)) = events w @ [Progress p] \<and>
             percent t (bytes_remaining c) = Inr p \<and>
             0 \<le> p \<and> p \<le> 100 \<and> \<bar>p - spec_percent t (bytes_remaining c)\<bar> \<le> 1"
    if "fst (pause_wait (apply_ctls (before c) w) (sleeps c)) = Done \<and>
        \<not> cancel_event (snd (pause_wait (apply_ctls (before c) w) (sleeps c))) \<and>
        effective_total w s = Some t \<and> t \<noteq> 0 \<and> in_double_range t (bytes_remaining c)" for t
    using passed[of t] that pw by simp
  show "\<exists>p. fst (on_progress w s c) = Done \<and>
             events (snd (on_progress w s c)) = events w @ [Progress p] \<and>
             percent t (bytes_remaining c) = Inr p \<and>
             0 \<le> p \<and> p \<le> 100 \<and> \<bar>p - spec_percent t (bytes_remaining c)\<bar> \<le> 1"
    if h: "\<not> cancel_event w \<and> calm c \<and> wakes (toggles (pause_event w) (before c)) (sleeps c) \<and>
        effective_total w s = Some t \<and> t \<noteq> 0 \<and> in_double_range t (bytes_remaining c)" for t
  proof -
    from h have "pause_wait (apply_ctls (before c) w) (sleeps c) = (Done, w\<lparr>pause_event := False\<rparr>)"
      by (intro on_progress_calm) simp_all
    with pw have "r = Done" "w1 = w\<lparr>pause_event := False\<rparr>" by simp_all
    moreover then have "\<not> cancel_event w1" using h by simp
    ultimately show ?thesis using passed[of t] h by auto
  qed
  have "events (snd (on_progress w s c)) = events w \<or>
    (\<exists>t p. effective_total w s = Some t \<and> t \<noteq> 0 \<and>
           percent t (bytes_remaining c) = Inr p \<and>
           events (snd (on_progress w s c)) = events w @ [Progress p])"
    using pw same
    by (auto simp: on_progress_def emit_def split: outcome.splits option.splits sum.splits)
  then show "events (snd (on_progress w s c)) = events w \<or>
    (\<exists>t p. effective_total w s = Some t \<and> t \<noteq> 0 \<and>
           percent t (bytes_remaining c) = Inr p \<and>
           events (snd (on_progress w s c)) = events w @ [Progress p] \<and>
           0 \<le> p \<and> p \<le> 100 \<and> \<bar>p - spec_percent t (bytes_remaining c)\<bar> \<le> 1)"
    using percent_range percent_accuracy by blast
qed

theorem on_progress_percent_witness:
  "\<exists>p. fst (on_progress sample_worker
            ((variant True False ''mp4'' 720)\<lparr>filesize := Some 100\<rparr>)
            \<lparr>before = [TogglePause], sleeps = [[], [TogglePause]], bytes_remaining = 71\<rparr>) = Done \<and>
       events (snd (on_progress sample_worker
            ((variant True False ''mp4'' 720)\<lparr>filesize := Some 100\<rparr>)
            \<lparr>before = [TogglePause], sleeps = [[], [TogglePause]], bytes_remaining = 71\<rparr>))
         = [Progress p] \<and>
       percent 100 71 = Inr p \<and> 0 \<le> p \<and> p \<le> 100 \<and> \<bar>p - spec_percent 100 71\<bar> \<le> 1"
proof -
  let ?s = "(variant True False ''mp4'' 720)\<lparr>filesize := Some 100\<rparr>"
  let ?c = "\<lparr>before = [TogglePause], sleeps = [[], [TogglePause]], bytes_remaining = 71\<rparr>"
  have h: "\<not> cancel_event sample_worker \<and> calm ?c \<and>
      wakes (toggles (pause_event sample_worker) (before ?c)) (sleeps ?c) \<and>
      effective_total sample_worker ?s = Some 100 \<and> (100::int) \<noteq> 0 \<and>
      in_double_range 100 (bytes_remaining ?c)"
    by (simp add: run_eval calm_def in_double_range_def)
  have e0: "events sample_worker = []" by (simp add: sample_worker_def init_def)
  from on_progress_percent[of sample_worker ?s ?c] h e0 show ?thesis
    by (auto simp del: One_nat_def)
qed

text \<open>
  The value is not always that floor: with a total of 100 bytes and 71 bytes remaining,
  \<open>29 / 100\<close> rounds to a double just below 0.29, the product with 100 rounds to the
  double just below 29, and the callback emits 28 where the floor is 29.
\<close>

theorem on_progress_percent_counterexample:
  "events (snd (on_progress sample_worker
        ((variant True False ''mp4'' 720)\<lparr>filesize := Some 100\<rparr>)
        \<lparr>before = [], sleeps = [], bytes_remaining = 71\<rparr>)) = [Progress 28] \<and>
   spec_percent 100 71 = 29"
proof -
  have pct: "percent 100 71 = Inr 28" by (simp add: percent_eval)
  show ?thesis by (simp add: run_eval pct spec_percent_def)
qed

section \<open>A playlist whose downloads all succeed\<close>

text \<open>
  From the world to the outcome: when every item has what it needs to succeed, no
  \<open>cancel\<close> call arrives and every pause is resumed, each chunk callback returns, each
  transfer and each download returns, and so does the playlist loop, with the cancel
  flag clear.
\<close>

lemma py_or_again: "py_or (py_or (py_or a b) a) b = py_or a b"
  by (simp add: py_or_def)

lemma on_progress_succeeds:
  assumes "\<not> cancel_event w" and "calm c"
    and "wakes (toggles (pause_event w) (before c)) (sleeps c)"
    and "case effective_total w s of None \<Rightarrow> True
         | Some t \<Rightarrow> t = 0 \<or> in_double_range t (bytes_remaining c)"
  shows "\<exists>evs. on_progress w s c = (Done, w\<lparr>pause_event := False, events := events w @ evs\<rparr>)"
proof -
  define w1 where "w1 = w\<lparr>pause_event := False\<rparr>"
  have pw: "pause_wait (apply_ctls (before c) w) (sleeps c) = (Done, w1)"
    unfolding w1_def using assms(1-3) by (rule on_progress_calm)
  have nc: "\<not> cancel_event w1" using assms(1) by (simp add: w1_def)
  have et: "effective_total w1 s = effective_total w s" by (simp add: w1_def effective_total_def)
  show ?thesis
  proof (cases "truthy (effective_total w s)")
    case False
    then have "on_progress w s c = (Done, w1)"
      using pw nc et by (auto simp: on_progress_def truthy_def split: option.splits)
    then have "on_progress w s c = (Done, w\<lparr>pause_event := False, events := events w @ []\<rparr>)"
      by (simp add: w1_def)
    then show ?thesis ..
  next
    case True
    then obtain t where t: "effective_total w s = Some t" "t \<noteq> 0"
      by (auto simp: truthy_def split: option.splits)
    with assms(4) have "in_double_range t (bytes_remaining c)" by simp
    from on_progress_emits[OF pw nc t this] obtain p where
      "on_progress w s c = (Done, emit (Progress p) w1)" by blast
    then have "on_progress w s c = (Done, w\<lparr>pause_event := False, events := events w @ [Progress p]\<rparr>)"
      by (simp add: w1_def emit_def)
    then show ?thesis ..
  qed
qed

lemma transfer_succeeds:
  assumes "\<not> cancel_event w" and "chunks_wake (pause_event w) cs"
    and "\<forall>c \<in> set cs. calm c \<and>
           (case effective_total w s of None \<Rightarrow> True
            | Some t \<Rightarrow> t = 0 \<or> in_double_range t (bytes_remaining c))"
  shows "\<exists>evs. transfer w s cs None =
           (Done, w\<lparr>pause_event := (if cs = [] then pause_event w else False),
                     events := events w @ evs\<rparr>)"
  using assms
proof (induction cs arbitrary: w)
  case Nil
  have "transfer w s [] None = (Done, w\<lparr>pause_event := pause_event w, events := events w @ []\<rparr>)"
    by simp
  then show ?case by (intro exI[of _ "[]"]) simp
next
  case (Cons c cs)
  from Cons.prems have "\<exists>evs. on_progress w s c = (Done, w\<lparr>pause_event := False, events := events w @ evs\<rparr>)"
    by (intro on_progress_succeeds) simp_all
  then obtain evs1 where op: "on_progress w s c = (Done, w\<lparr>pause_event := False, events := events w @ evs1\<rparr>)" ..
  define w1 where "w1 = w\<lparr>pause_event := False, events := events w @ evs1\<rparr>"
  have et: "effective_total w1 s = effective_total w s" by (simp add: w1_def effective_total_def)
  have "\<exists>evs. transfer w1 s cs None =
           (Done, w1\<lparr>pause_event := (if cs = [] then pause_event w1 else False),
                      events := events w1 @ evs\<rparr>)"
  proof (rule Cons.IH)
    show "\<not> cancel_event w1" using Cons.prems(1) by (simp add: w1_def)
    show "chunks_wake (pause_event w1) cs" using Cons.prems(2) by (simp add: w1_def)
    show "\<forall>c \<in> set cs. calm c \<and>
           (case effective_total w1 s of None \<Rightarrow> True
            | Some t \<Rightarrow> t = 0 \<or> in_double_range t (bytes_remaining c))"
      using Cons.prems(3) by (simp add: et)
  qed
  then obtain evs2 where "transfer w1 s cs None =
           (Done, w1\<lparr>pause_event := (if cs = [] then pause_event w1 else False),
                      events := events w1 @ evs2\<rparr>)" ..
  then have "transfer w s (c # cs) None =
      (Done, w\<lparr>pause_event := False, events := events w @ (evs1 @ evs2)\<rparr>)"
    using op by (simp add: w1_def)
  then show ?case by auto
qed

lemma download_one_succeeds:
  assumes "item_succeeds W (mode w) k u" and "\<not> cancel_event w"
    and "chunks_wake (pause_event w) (chunks (episode W k))"
  shows "\<exists>w'. download_one W w k u = (Done, w') \<and> \<not> cancel_event w' \<and> mode w' = mode w \<and>
              pause_event w' = (if chunks (episode W k) = [] then pause_event w else False)"
proof -
  from assms(1) obtain yt where yt: "youtube W u = Inr yt"
    by (auto simp: item_succeeds_def split: sum.splits)
  from assms(1) yt obtain s where s: "select_stream (mode w) (streams yt) = Some s"
    by (auto simp: item_succeeds_def split: option.splits)
  from assms(1) yt s have flt: "fault (episode W k) = None"
    and cs: "\<forall>c \<in> set (chunks (episode W k)). calm c \<and>
              (case py_or (filesize s) (filesize_approx s) of None \<Rightarrow> True
               | Some t \<Rightarrow> t = 0 \<or> in_double_range t (bytes_remaining c))"
    by (simp_all add: item_succeeds_def)
  define name where "name = sanitize_filename (str_or (title yt) (ascii ''video''))"
  define w1 where "w1 = w\<lparr>current_total := py_or (filesize s) (filesize_approx s)\<rparr>"
  define out_path where "out_path = unique_path (files w1) (dest_dir w1) name (extension s)"
  define w2 where "w2 = emit (Status (ascii ''Iniciando: '' @ title yt)) w1"
  define w3 where "w3 = w2\<lparr>files := out_path # files w2\<rparr>"
  have et: "effective_total w3 s = py_or (filesize s) (filesize_approx s)"
    by (simp add: w3_def w2_def w1_def emit_def effective_total_def py_or_again)
  have f3: "\<not> cancel_event w3" "pause_event w3 = pause_event w" "mode w3 = mode w"
    using assms(2) by (simp_all add: w3_def w2_def w1_def emit_def)
  have "\<exists>evs. transfer w3 s (chunks (episode W k)) None =
           (Done, w3\<lparr>pause_event := (if chunks (episode W k) = [] then pause_event w3 else False),
                      events := events w3 @ evs\<rparr>)"
  proof (rule transfer_succeeds)
    show "\<not> cancel_event w3" by (rule f3)
    show "chunks_wake (pause_event w3) (chunks (episode W k))" using assms(3) by (simp add: f3)
    show "\<forall>c \<in> set (chunks (episode W k)). calm c \<and>
           (case effective_total w3 s of None \<Rightarrow> True
            | Some t \<Rightarrow> t = 0 \<or> in_double_range t (bytes_remaining c))"
      using cs by (simp add: et)
  qed
  then obtain evs where tr: "transfer w3 s (chunks (episode W k)) (fault (episode W k)) =
           (Done, w3\<lparr>pause_event := (if chunks (episode W k) = [] then pause_event w3 else False),
                      events := events w3 @ evs\<rparr>)"
    using flt by auto
  define w4 where "w4 = w3\<lparr>pause_event := (if chunks (episode W k) = [] then pause_event w3 else False),
                      events := events w3 @ evs\<rparr>"
  have "download_one W w k u =
      (Done, emit (ItemDone (str_or (title yt) name) out_path) (emit (Progress 100) w4))"
    using yt s tr
    unfolding download_one_def Let_def name_def w1_def out_path_def w2_def w3_def w4_def
    by simp
  moreover have "\<not> cancel_event (emit (ItemDone (str_or (title yt) name) out_path) (emit (Progress 100) w4))"
    using f3 by (simp add: w4_def emit_def)
  moreover have "mode (emit (ItemDone (str_or (title yt) name) out_path) (emit (Progress 100) w4)) = mode w"
    using f3 by (simp add: w4_def emit_def)
  moreover have "pause_event (emit (ItemDone (str_or (title yt) name) out_path) (emit (Progress 100) w4))
      = (if chunks (episode W k) = [] then pause_event w else False)"
    using f3 by (simp add: w4_def emit_def)
  ultimately show ?thesis by blast
qed

lemma iter_playlist_succeeds:
  assumes "items_succeed W (mode w) cnt us" and "pauses_resumed W (pause_event w) cnt us"
    and "\<not> cancel_event w"
  shows "\<exists>w'. iter_playlist W w tot cnt us = (Done, w') \<and> \<not> cancel_event w'"
  using assms
proof (induction us arbitrary: w cnt)
  case Nil
  then show ?case by simp
next
  case (Cons u us)
  define ep where "ep = episode W (cnt + 1)"
  define st where "st = Status (ascii ''Baixando item '' @ str_nat (cnt + 1) @ ascii ''/'' @ str_nat tot)"
  from Cons.prems(1) have item: "item_succeeds W (mode w) (cnt + 1) u"
    and items: "items_succeed W (mode w) (cnt + 1) us" by simp_all
  from item have npre: "Cancel \<notin> set (pre ep)"
    by (auto simp: item_succeeds_def ep_def split: sum.splits option.splits)
  define w1 where "w1 = apply_ctls (pre ep) w"
  have w1: "w1 = w\<lparr>pause_event := toggles (pause_event w) (pre ep)\<rparr>"
    unfolding w1_def using npre by (rule apply_ctls_no_cancel)
  have nc1: "\<not> cancel_event w1" using Cons.prems(3) by (simp add: w1)
  from Cons.prems(2) have wake: "chunks_wake (toggles (pause_event w) (pre ep)) (chunks ep)"
    by (simp add: Let_def ep_def)
  from Cons.prems(2) have rest:
    "pauses_resumed W (if chunks ep = [] then toggles (pause_event w) (pre ep) else False)
       (cnt + 1) us"
    by (cases "chunks ep = []") (simp_all add: Let_def ep_def)
  have "\<exists>w'. download_one W (emit st w1) (cnt + 1) u = (Done, w') \<and> \<not> cancel_event w' \<and>
          mode w' = mode (emit st w1) \<and>
          pause_event w' = (if chunks (episode W (cnt + 1)) = [] then pause_event (emit st w1) else False)"
  proof (rule download_one_succeeds)
    show "item_succeeds W (mode (emit st w1)) (cnt + 1) u" using item by (simp add: emit_def w1)
    show "\<not> cancel_event (emit st w1)" using nc1 by simp
    show "chunks_wake (pause_event (emit st w1)) (chunks (episode W (cnt + 1)))"
      using wake by (simp add: emit_def w1 ep_def)
  qed
  then obtain w2 where d: "download_one W (emit st w1) (cnt + 1) u = (Done, w2)"
    and nc2: "\<not> cancel_event w2" and m2': "mode w2 = mode (emit st w1)"
    and p2': "pause_event w2 =
        (if chunks (episode W (cnt + 1)) = [] then pause_event (emit st w1) else False)"
    by blast
  have m2: "mode w2 = mode w" using m2' by (simp add: emit_def w1)
  have p2: "pause_event w2 = (if chunks ep = [] then toggles (pause_event w) (pre ep) else False)"
    using p2' by (simp add: emit_def w1 ep_def)
  have "\<exists>w'. iter_playlist W w2 tot (cnt + 1) us = (Done, w') \<and> \<not> cancel_event w'"
  proof (rule Cons.IH)
    show "items_succeed W (mode w2) (cnt + 1) us" using items by (simp add: m2)
    show "pauses_resumed W (pause_event w2) (cnt + 1) us" using rest by (simp add: p2)
    show "\<not> cancel_event w2" by (rule nc2)
  qed
  moreover have "iter_playlist W w tot cnt (u # us) = iter_playlist W w2 tot (cnt + 1) us"
    using nc1 d unfolding w1_def st_def ep_def by (simp add: Let_def)
  ultimately show ?case by simp
qed

lemma downloads_succeed:
  assumes "mkdir W = None" and "playlist W (url w) = Inr us" and "us \<noteq> []"
    and "items_succeed W (mode w) 0 us" and "pauses_resumed W (pause_event w) 0 us"
    and "\<not> cancel_event w" and "Cancel \<notin> set (final W)"
  shows "fst (downloads W w) = Done"
    and "\<not> cancel_event (apply_ctls (final W) (snd (downloads W w)))"
proof -
  define w0 where "w0 = emit (Status (ascii ''Detectada playlist. Preparando itens...'')) w"
  have "\<exists>w'. iter_playlist W w0 (length us) 0 us = (Done, w') \<and> \<not> cancel_event w'"
  proof (rule iter_playlist_succeeds)
    show "items_succeed W (mode w0) 0 us" using assms(4) by (simp add: w0_def emit_def)
    show "pauses_resumed W (pause_event w0) 0 us" using assms(5) by (simp add: w0_def emit_def)
    show "\<not> cancel_event w0" using assms(6) by (simp add: w0_def)
  qed
  then obtain w' where it: "iter_playlist W w0 (length us) 0 us = (Done, w')" and nc: "\<not> cancel_event w'"
    by blast
  from assms(2,3) have "playlist_urls W (url w) = Some us" by (simp add: playlist_urls_def)
  with assms(1) it have d: "downloads W w = (Done, w')" by (simp add: downloads_def w0_def)
  then show "fst (downloads W w) = Done" by simp
  have "apply_ctls (final W) w' = w'\<lparr>pause_event := toggles (pause_event w') (final W)\<rparr>"
    using assms(7) by (rule apply_ctls_no_cancel)
  with nc d show "\<not> cancel_event (apply_ctls (final W) (snd (downloads W w)))" by simp
qed

text \<open>
  C3. For a playlist of \<open>K\<close> items whose downloads all succeed with no cancellation
  requested (the directory can be made; every link resolves, has a variant for the
  mode and a transfer without fault; no \<open>cancel\<close> call arrives and the worker starts
  not cancelled; every pause is resumed; the progress quotients are within the range
  of doubles), the run returns and emits exactly \<open>K\<close> \<open>item_done\<close> signals, for the
  items in the playlist's order, and exactly one terminal signal, \<open>finished_ok\<close>,
  which is the last signal of the run.
\<close>

theorem playlist_all_succeed:
  assumes "mkdir W = None" and "playlist W (url w) = Inr us" and "us \<noteq> []"
    and "items_succeed W (mode w) 0 us" and "pauses_resumed W (pause_event w) 0 us"
    and "\<not> cancel_event w" and "Cancel \<notin> set (final W)"
  shows "fst (run W w) = Done \<and>
         length (filter is_item_done (emitted w (snd (run W w)))) = length us \<and>
         map done_title (filter is_item_done (emitted w (snd (run W w)))) = map (item_title W) us \<and>
         filter is_terminal (emitted w (snd (run W w))) = [FinishedOk] \<and>
         last (emitted w (snd (run W w))) = FinishedOk"
  using assms(2,3) downloads_succeed[OF assms]
  by (rule playlist_done_signals)

theorem playlist_all_succeed_witness:
  "map done_title (filter is_item_done (emitted sample_worker
       (snd (run (sample_world (Inr [ascii ''a'', ascii ''b''])
                   (one_chunk [TogglePause] [[], [TogglePause]] 0)) sample_worker))))
     = [ascii ''My Video'', ascii ''My Video''] \<and>
   filter is_terminal (emitted sample_worker
       (snd (run (sample_world (Inr [ascii ''a'', ascii ''b''])
                   (one_chunk [TogglePause] [[], [TogglePause]] 0)) sample_worker)))
     = [FinishedOk] \<and>
   last (emitted sample_worker
       (snd (run (sample_world (Inr [ascii ''a'', ascii ''b''])
                   (one_chunk [TogglePause] [[], [TogglePause]] 0)) sample_worker)))
     = FinishedOk"
proof -
  let ?W = "sample_world (Inr [ascii ''a'', ascii ''b''])
              (one_chunk [TogglePause] [[], [TogglePause]] 0)"
  have m: "mkdir ?W = None" by (simp add: sample_world_def)
  have p: "playlist ?W (url sample_worker) = Inr [ascii ''a'', ascii ''b'']"
    by (simp add: sample_world_def)
  have ne: "[ascii ''a'', ascii ''b''] \<noteq> []" by simp
  have ok: "items_succeed ?W (mode sample_worker) 0 [ascii ''a'', ascii ''b'']"
    by (simp add: item_succeeds_def calm_def in_double_range_def run_eval)
  have pr: "pauses_resumed ?W (pause_event sample_worker) 0 [ascii ''a'', ascii ''b'']"
    by (simp add: run_eval)
  have nc: "\<not> cancel_event sample_worker" by (simp add: sample_worker_def init_def)
  have fin: "Cancel \<notin> set (final ?W)" by (simp add: sample_world_def)
  from playlist_all_succeed[OF m p ne ok pr nc fin] show ?thesis
    by (simp add: item_title_def sample_world_def sample_video_def str_or_def ascii_def)
qed

section \<open>Cancellation and the terminal signal\<close>

text \<open>
  A callback that starts with the cancel flag set raises, while paused or not; and
  \<open>run\<close> reports whatever the downloads raise through the \<open>error\<close> signal.
\<close>

lemma on_progress_cancel_raises:
  assumes "cancel_event (apply_ctls (before c) w)"
  shows "fst (on_progress w s c) = Raised (Exception msg_cancel_paused) \<or>
         fst (on_progress w s c) = Raised (Exception msg_cancel_user)"
proof -
  have "fst (pause_wait w' ts) = Raised (Exception msg_cancel_paused) \<or>
        (fst (pause_wait w' ts) = Done \<and> cancel_event (snd (pause_wait w' ts)))"
    if "cancel_event w'" for w' ts
    using that
    by (induction w' ts rule: pause_wait.induct) (simp_all add: cancel_event_apply_ctls)
  from this[OF assms, of "sleeps c"] show ?thesis
    by (auto simp: on_progress_def split: prod.splits outcome.splits)
qed

lemma run_reports_raise:
  "downloads W w = (Raised e, w1) \<Longrightarrow> run W w = (Done, emit (Error (str_exn e)) w1)"
  by (simp add: run_def)

text \<open>
  C1. The claim is that a run cancelled while the transfer is paused, or at a
  chunk-progress checkpoint, ends with \<open>finished_with_cancel\<close> and not with \<open>error\<close>.
  In the code the callback raises a plain \<open>Exception\<close>, which the \<open>except\<close> of
  \<open>run\<close> turns into the \<open>error\<close> signal; the test of the cancel flag that chooses
  \<open>finished_with_cancel\<close> is skipped. Two runs of one item, one chunk: pause then
  cancel during the pause; cancel before the chunk.
\<close>

theorem cancel_in_transfer_reports_error:
  "events (snd (run (sample_world (Inl (Exception [])) (one_chunk [TogglePause] [[Cancel]] 50))
                 sample_worker))
     = [Status (ascii ''Iniciando: My Video''), Error msg_cancel_paused] \<and>
   events (snd (run (sample_world (Inl (Exception [])) (one_chunk [Cancel] [] 50))
                 sample_worker))
     = [Status (ascii ''Iniciando: My Video''), Error msg_cancel_user]"
  by (simp add: run_eval)

text \<open>
  C2. The claim is that a run cancelled before any item starts ends with
  \<open>finished_with_cancel\<close> and emits no \<open>item_done\<close>. The playlist loop tests the flag
  before each item, and for a playlist the claim holds (\<open>cancel_before_playlist\<close>). The
  single-item path has no such test: the download starts, and the first chunk callback
  raises, which ends the run with \<open>error\<close>; a transfer without chunks completes and
  \<open>item_done\<close> is emitted before \<open>finished_with_cancel\<close>.
\<close>

theorem cancel_before_single_item:
  "events (snd (run (sample_world (Inl (Exception [])) (one_chunk [] [] 50))
                 (cancel sample_worker)))
     = [Status (ascii ''Iniciando: My Video''), Error msg_cancel_user] \<and>
   events (snd (run (sample_world (Inl (Exception [])) \<lparr>pre = [], chunks = [], fault = None\<rparr>)
                 (cancel sample_worker)))
     = [Status (ascii ''Iniciando: My Video''), Progress 100,
        ItemDone (ascii ''My Video'') (ascii ''downloads/My Video.mp4''), FinishedWithCancel]"
  by (simp add: run_eval)

lemma cancel_before_playlist:
  assumes "mkdir W = None" and "playlist_urls W (url w) = Some us" and "cancel_event w"
  shows "run W w = (Done, emit FinishedWithCancel (apply_ctls (final W)
           (apply_ctls (pre (episode W 1))
              (emit (Status (ascii ''Detectada playlist. Preparando itens...'')) w))))"
proof -
  from assms(2) obtain u us' where us: "us = u # us'"
    by (cases us) (auto simp: playlist_urls_def split: sum.splits if_splits)
  define w0 where "w0 = emit (Status (ascii ''Detectada playlist. Preparando itens...'')) w"
  have c0: "cancel_event (apply_ctls (pre (episode W 1)) w0)"
    using assms(3) by (simp add: w0_def cancel_event_apply_ctls)
  then have "iter_playlist W w0 (length us) 0 us = (Done, apply_ctls (pre (episode W 1)) w0)"
    by (simp add: us Let_def)
  with assms(1,2) have "downloads W w = (Done, apply_ctls (pre (episode W 1)) w0)"
    by (simp add: downloads_def w0_def)
  moreover have "cancel_event (apply_ctls (final W) (apply_ctls (pre (episode W 1)) w0))"
    using c0 by (rule cancel_event_apply_ctls)
  ultimately show ?thesis by (simp add: run_def Let_def w0_def)
qed

end
